theory Spec2Isabelle
  imports Complex_Main "HOL-Library.AList" "HOL-Library.Multiset"
begin

section \<open>Term-at-a-time scoring: the notebook as HOL functions\<close>

text \<open>
  The notebook \<^verbatim>\<open>3_Taat_scoring.ipynb\<close> builds an inverted index from a
  term-document matrix, precomputes document norms and scores a query term at a time.

  Conventions of the embedding:
  \<^item> a Python \<^verbatim>\<open>dict\<close> is an association list in insertion order with distinct keys;
    \<^verbatim>\<open>d[k] = v\<close> is \<open>AList.update k v d\<close> (in place for a known key, appended for a
    new one), \<^verbatim>\<open>d[k]\<close> raises \<open>KeyError\<close> for a missing key, \<^verbatim>\<open>d.get(k, v)\<close> does not;
  \<^item> a Python \<^verbatim>\<open>int\<close> is an \<open>int\<close>; a position given by \<^verbatim>\<open>enumerate\<close> is a \<open>nat\<close>;
  \<^item> a Python \<^verbatim>\<open>float\<close> is a \<open>real\<close>: the arithmetic of the model is exact, the
    rounding of IEEE doubles is not modelled. \<^verbatim>\<open>/\<close> is Python 3 true division and
    raises \<open>ZeroDivisionError\<close> on a zero divisor;
  \<^item> every exception is a value \<open>Inl e\<close> of the result type \<open>error + 'a\<close>;
  \<^item> the module-level names that the functions read (\<^verbatim>\<open>idx\<close>, \<^verbatim>\<open>doclen\<close>,
    \<^verbatim>\<open>docnorm\<close> and the function \<^verbatim>\<open>idf\<close>) are passed explicitly.
\<close>

subsection \<open>Python primitives\<close>

datatype error = ZeroDivisionError | KeyError | ValueError | OverflowError

definition rbind :: "error + 'a \<Rightarrow> ('a \<Rightarrow> error + 'b) \<Rightarrow> error + 'b" where
  "rbind m f = (case m of Inl e \<Rightarrow> Inl e | Inr v \<Rightarrow> f v)"

text \<open>\<^verbatim>\<open>for x in xs: body\<close> over a state; the first exception ends the loop.\<close>

fun for_loop :: "'a list \<Rightarrow> ('a \<Rightarrow> 's \<Rightarrow> error + 's) \<Rightarrow> 's \<Rightarrow> error + 's" where
  "for_loop [] body s = Inr s"
| "for_loop (x # xs) body s =
     (case body x s of Inl e \<Rightarrow> Inl e | Inr s' \<Rightarrow> for_loop xs body s')"

definition truediv :: "real \<Rightarrow> real \<Rightarrow> error + real" where
  "truediv a b = (if b = 0 then Inl ZeroDivisionError else Inr (a / b))"

definition subscript :: "('k \<times> 'v) list \<Rightarrow> 'k \<Rightarrow> error + 'v" where
  "subscript d k = (case map_of d k of None \<Rightarrow> Inl KeyError | Some v \<Rightarrow> Inr v)"

definition dict_get :: "('k \<times> 'v) list \<Rightarrow> 'k \<Rightarrow> 'v \<Rightarrow> 'v" where
  "dict_get d k dflt = (case map_of d k of None \<Rightarrow> dflt | Some v \<Rightarrow> v)"

definition math_log :: "real \<Rightarrow> error + real" where
  "math_log x = (if x \<le> 0 then Inl ValueError else Inr (ln x))"

definition math_log10 :: "real \<Rightarrow> error + real" where
  "math_log10 x = (if x \<le> 0 then Inl ValueError else Inr (log 10 x))"

definition math_sqrt :: "real \<Rightarrow> error + real" where
  "math_sqrt x = (if x < 0 then Inl ValueError else Inr (sqrt x))"

text \<open>\<^verbatim>\<open>str(n)\<close> for a non-negative integer: its decimal digits.\<close>

definition digit :: "nat \<Rightarrow> char" where
  "digit n = ''0123456789'' ! n"

fun str :: "nat \<Rightarrow> string" where
  "str n = (if n < 10 then [digit n] else str (n div 10) @ [digit (n mod 10)])"

declare str.simps [simp del]

text \<open>
  \<^verbatim>\<open>round(x, n)\<close> rounds to \<open>n\<close> decimals, a tie going to the even neighbour.
  The model rounds the exact real; the result stands for the double that Python prints.
\<close>

definition round_half_even :: "real \<Rightarrow> int" where
  "round_half_even x =
     (let f = \<lfloor>x\<rfloor>; r = x - of_int f
      in if r < 1 / 2 then f else if 1 / 2 < r then f + 1
         else if even f then f else f + 1)"

definition py_round :: "real \<Rightarrow> nat \<Rightarrow> real" where
  "py_round x n = of_int (round_half_even (x * 10 ^ n)) / 10 ^ n"

subsection \<open>The term-document matrix and the inverted index\<close>

type_synonym posting = "nat \<times> int"
type_synonym matrix = "(string \<times> int list) list"
type_synonym inverted = "(string \<times> posting list) list"

definition td_matrix :: matrix where
  "td_matrix =
    [(''beijing'', [0, 1, 0, 0, 1]),
     (''dish'', [0, 1, 0, 0, 1]),
     (''duck'', [3, 2, 2, 0, 1]),
     (''rabbit'', [0, 0, 1, 1, 0]),
     (''recipe'', [0, 0, 1, 1, 1]),
     (''roast'', [0, 0, 0, 0, 0])]"

definition NUM_DOCS :: int where
  "NUM_DOCS = 5"

text \<open>
  The index builder:
  \<^verbatim>\<open>
  inv_idx = {}
  doclen = {}
  for term, vec in td_matrix.items():
      inv_idx[term] = []
      for doc_id, freq in enumerate(vec):
          if freq > 0:
              inv_idx[term].append((doc_id, freq))
              doclen[doc_id] = doclen.get(doc_id, 0) + freq
  \<close>
  The state of the two loops is the pair of \<^verbatim>\<open>inv_idx\<close> and \<^verbatim>\<open>doclen\<close>.
  \<open>index_posting\<close> is the body of the inner loop, \<open>index_term\<close> the body of the
  outer one. The list \<^verbatim>\<open>inv_idx[term]\<close> is read by subscript before the posting is
  appended to it.
\<close>

definition index_posting ::
  "string \<Rightarrow> posting \<Rightarrow> inverted \<times> (nat \<times> int) list \<Rightarrow> error + inverted \<times> (nat \<times> int) list"
where
  "index_posting trm p s =
     (case p of (doc_id, freq) \<Rightarrow> case s of (inv_idx, doclen) \<Rightarrow>
        if freq > 0 then
          rbind (subscript inv_idx trm) (\<lambda>ps.
            Inr (AList.update trm (ps @ [(doc_id, freq)]) inv_idx,
                 AList.update doc_id (dict_get doclen doc_id 0 + freq) doclen))
        else Inr s)"

definition index_term ::
  "string \<times> int list \<Rightarrow> inverted \<times> (nat \<times> int) list \<Rightarrow> error + inverted \<times> (nat \<times> int) list"
where
  "index_term tv s =
     (case tv of (trm, vec) \<Rightarrow> case s of (inv_idx, doclen) \<Rightarrow>
        for_loop (enumerate 0 vec) (index_posting trm) (AList.update trm [] inv_idx, doclen))"

definition build_index :: "matrix \<Rightarrow> error + inverted \<times> (nat \<times> int) list" where
  "build_index m = for_loop m index_term ([], [])"

subsection \<open>The index accessor\<close>

text \<open>
  \<^verbatim>\<open>
  class InvIndex(object):
      def __init__(self, idx_contents):
          self.idx = idx_contents
      def terms(self):
          return self.idx.keys()
      def postings(self, term):
          return self.idx.get(term, [])
  \<close>
  The attribute \<^verbatim>\<open>self.idx\<close> is the field \<open>contents\<close>; the name \<open>idx\<close> is kept for
  the module-level object \<^verbatim>\<open>idx = InvIndex(inv_idx)\<close>.
\<close>

datatype InvIndex = InvIndex (contents: inverted)

definition terms :: "InvIndex \<Rightarrow> string list" where
  "terms self = map fst (contents self)"

definition postings :: "InvIndex \<Rightarrow> string \<Rightarrow> posting list" where
  "postings self trm = dict_get (contents self) trm []"

subsection \<open>IDF\<close>

text \<open>
  \<^verbatim>\<open>
  def idf(term):
      return math.log(NUM_DOCS / len(idx.postings(term))) if len(idx.postings(term)) > 0 else 0
  \<close>
  \<^verbatim>\<open>math.log\<close> with one argument is the natural logarithm.
\<close>

definition idf :: "InvIndex \<Rightarrow> string \<Rightarrow> error + real" where
  "idf idx trm =
     (if length (postings idx trm) > 0
      then rbind (truediv (of_int NUM_DOCS) (of_nat (length (postings idx trm)))) math_log
      else Inr 0)"

text \<open>
  The IDF of the specification, with the logarithm to base 10; it is compared with
  \<open>idf\<close> below and is not part of the notebook's code.
\<close>

definition idf_log10 :: "InvIndex \<Rightarrow> string \<Rightarrow> error + real" where
  "idf_log10 idx trm =
     (if length (postings idx trm) > 0
      then rbind (truediv (of_int NUM_DOCS) (of_nat (length (postings idx trm)))) math_log10
      else Inr 0)"

subsection \<open>Document norms\<close>

text \<open>
  \<^verbatim>\<open>
  docnorm = {}
  for term in idx.terms():
      for (doc_id, freq) in idx.postings(term):
          tf = freq / doclen[doc_id]
          tfidf = tf * idf(term)
          docnorm[doc_id] = docnorm.get(doc_id, 0) + tfidf**2
  for doc_id in docnorm.keys():
      docnorm[doc_id] = math.sqrt(docnorm[doc_id])
  \<close>
  \<open>docnorm_posting\<close> is the body of the inner loop of the summation,
  \<open>docnorm_sqrt\<close> the body of the second loop.
\<close>

definition docnorm_posting ::
  "(InvIndex \<Rightarrow> string \<Rightarrow> error + real) \<Rightarrow> InvIndex \<Rightarrow> (nat \<times> int) list \<Rightarrow> string \<Rightarrow>
     posting \<Rightarrow> (nat \<times> real) list \<Rightarrow> error + (nat \<times> real) list"
where
  "docnorm_posting idf_fn idx doclen trm p docnorm =
     (case p of (doc_id, freq) \<Rightarrow>
        rbind (subscript doclen doc_id) (\<lambda>dl.
        rbind (truediv (of_int freq) (of_int dl)) (\<lambda>tf.
        rbind (idf_fn idx trm) (\<lambda>i.
          let tfidf = tf * i
          in Inr (AList.update doc_id (dict_get docnorm doc_id 0 + tfidf ^ 2) docnorm)))))"

definition docnorm_sqrt :: "nat \<Rightarrow> (nat \<times> real) list \<Rightarrow> error + (nat \<times> real) list" where
  "docnorm_sqrt doc_id docnorm =
     rbind (subscript docnorm doc_id) (\<lambda>v.
     rbind (math_sqrt v) (\<lambda>r. Inr (AList.update doc_id r docnorm)))"

definition docnorm_pre ::
  "(InvIndex \<Rightarrow> string \<Rightarrow> error + real) \<Rightarrow> InvIndex \<Rightarrow> (nat \<times> int) list \<Rightarrow>
     error + (nat \<times> real) list"
where
  "docnorm_pre idf_fn idx doclen =
     rbind (for_loop (terms idx)
              (\<lambda>trm. for_loop (postings idx trm) (docnorm_posting idf_fn idx doclen trm)) [])
       (\<lambda>docnorm. for_loop (map fst docnorm) docnorm_sqrt docnorm)"

subsection \<open>Scoring\<close>

record globals =
  idx :: InvIndex
  doclen :: "(nat \<times> int) list"
  docnorm :: "(nat \<times> real) list"

text \<open>
  \<^verbatim>\<open>
  def score_tt(query):
      scores = {}
      qnorm = 0
      for term in set(query):
          tf = query.count(term) / len(query)
          tfidf = tf * idf(term)
          qnorm += tfidf**2
      qnorm = math.sqrt(qnorm)
      for term in query:
          for (doc_id, freq) in idx.postings(term):
              tf_td = freq / doclen[doc_id]
              tfidf_td = tf_td * idf(term)
              tf_tq = 1 / len(query)
              tfidf_tq = tf_tq * idf(term)
              score_term = tfidf_tq * tfidf_td / (qnorm * docnorm[doc_id])
              scores[doc_id] = scores.get(doc_id, 0) + score_term
      return scores
  \<close>
  \<open>qnorm_term\<close> is the body of the first loop and \<open>score_posting\<close> the body of the
  inner scoring loop, with the subscripts, divisions and calls in the order in which
  Python evaluates them. Python leaves the iteration order of \<^verbatim>\<open>set(query)\<close> open; the
  model iterates over \<open>remdups query\<close>, and the exact sum does not depend on the order.
\<close>

definition qnorm_term ::
  "(InvIndex \<Rightarrow> string \<Rightarrow> error + real) \<Rightarrow> globals \<Rightarrow> string list \<Rightarrow> string \<Rightarrow> real \<Rightarrow>
     error + real"
where
  "qnorm_term idf_fn g query trm qnorm =
     rbind (truediv (of_nat (count_list query trm)) (of_nat (length query))) (\<lambda>tf.
     rbind (idf_fn (idx g) trm) (\<lambda>i.
       let tfidf = tf * i in Inr (qnorm + tfidf ^ 2)))"

definition score_posting ::
  "(InvIndex \<Rightarrow> string \<Rightarrow> error + real) \<Rightarrow> globals \<Rightarrow> string list \<Rightarrow> real \<Rightarrow> string \<Rightarrow>
     posting \<Rightarrow> (nat \<times> real) list \<Rightarrow> error + (nat \<times> real) list"
where
  "score_posting idf_fn g query qnorm trm p scores =
     (case p of (doc_id, freq) \<Rightarrow>
        rbind (subscript (doclen g) doc_id) (\<lambda>dl.
        rbind (truediv (of_int freq) (of_int dl)) (\<lambda>tf_td.
        rbind (idf_fn (idx g) trm) (\<lambda>i_td.
        let tfidf_td = tf_td * i_td in
        rbind (truediv 1 (of_nat (length query))) (\<lambda>tf_tq.
        rbind (idf_fn (idx g) trm) (\<lambda>i_tq.
        let tfidf_tq = tf_tq * i_tq in
        rbind (subscript (docnorm g) doc_id) (\<lambda>dn.
        rbind (truediv (tfidf_tq * tfidf_td) (qnorm * dn)) (\<lambda>score_term.
          Inr (AList.update doc_id (dict_get scores doc_id 0 + score_term) scores)))))))))"

definition score_tt ::
  "(InvIndex \<Rightarrow> string \<Rightarrow> error + real) \<Rightarrow> globals \<Rightarrow> string list \<Rightarrow>
     error + (nat \<times> real) list"
where
  "score_tt idf_fn g query =
     rbind (for_loop (remdups query) (qnorm_term idf_fn g query) 0) (\<lambda>qnorm2.
     rbind (math_sqrt qnorm2) (\<lambda>qnorm.
       for_loop query
         (\<lambda>trm. for_loop (postings (idx g) trm) (score_posting idf_fn g query qnorm trm)) []))"

subsection \<open>The notebook from the matrix to the ranked lines\<close>

definition init_globals ::
  "(InvIndex \<Rightarrow> string \<Rightarrow> error + real) \<Rightarrow> matrix \<Rightarrow> error + globals"
where
  "init_globals idf_fn m =
     rbind (build_index m) (\<lambda>(inv_idx, dl).
     rbind (docnorm_pre idf_fn (InvIndex inv_idx) dl) (\<lambda>dn.
       Inr \<lparr>idx = InvIndex inv_idx, doclen = dl, docnorm = dn\<rparr>))"

definition scores_of ::
  "(InvIndex \<Rightarrow> string \<Rightarrow> error + real) \<Rightarrow> matrix \<Rightarrow> string list \<Rightarrow> error + (nat \<times> real) list"
where
  "scores_of idf_fn m query = rbind (init_globals idf_fn m) (\<lambda>g. score_tt idf_fn g query)"

text \<open>
  The cells of the notebook in their order: the index and the length table, the index
  object, the document norms (\<open>init_globals\<close>), then the scores of a query
  (\<open>scores_of\<close>).
\<close>

text \<open>
  The display loop:
  \<^verbatim>\<open>
  for doc_id, score in sorted(scores.items(), key=lambda x: x[1], reverse=True):
      print("D" + str(doc_id + 1) + ":", round(score, 3))
  \<close>
  \<^verbatim>\<open>sorted\<close> is stable, also with \<^verbatim>\<open>reverse=True\<close>. A printed line is modelled by the
  two arguments of \<^verbatim>\<open>print\<close>: the label and the score rounded to 3 decimals.
\<close>

definition display :: "(nat \<times> real) list \<Rightarrow> (string \<times> real) list" where
  "display scores =
     map (\<lambda>(doc_id, score). (''D'' @ str (doc_id + 1) @ '':'', py_round score 3))
       (sort_key (\<lambda>x. - snd x) scores)"

subsection \<open>Abstract views of the loops, used in the proofs\<close>

text \<open>
  The definitions of this subsection are not code of the notebook. They say in closed
  form what the loops compute; the lemmas below prove that the loops compute it.
  \<open>positive vec\<close> is the posting list of a frequency vector; \<open>accumulate\<close> is the
  statement \<^verbatim>\<open>d[k] = d.get(k, 0) + v\<close> and \<open>total xs k\<close> the sum that it leaves under
  the key \<open>k\<close>; \<open>idf_val\<close> is the value that \<open>idf\<close> returns; \<open>sq_contribs\<close> and
  \<open>score_contribs\<close> list the summands of the document norms and of the scores.
\<close>

definition positive :: "int list \<Rightarrow> posting list" where
  "positive vec = filter (\<lambda>p. snd p > 0) (enumerate 0 vec)"

definition accumulate :: "'k \<times> 'v \<Rightarrow> ('k \<times> 'v::monoid_add) list \<Rightarrow> ('k \<times> 'v) list" where
  "accumulate p acc = AList.update (fst p) (dict_get acc (fst p) 0 + snd p) acc"

definition total :: "('k \<times> 'v::monoid_add) list \<Rightarrow> 'k \<Rightarrow> 'v" where
  "total xs k = sum_list (map snd (filter (\<lambda>p. fst p = k) xs))"

definition built_inv :: "matrix \<Rightarrow> inverted" where
  "built_inv m = fold (\<lambda>tv. AList.update (fst tv) (positive (snd tv))) m []"

definition built_doclen :: "matrix \<Rightarrow> (nat \<times> int) list" where
  "built_doclen m = fold accumulate (concat (map (\<lambda>tv. positive (snd tv)) m)) []"

definition lens_ok :: "InvIndex \<Rightarrow> (nat \<times> int) list \<Rightarrow> bool" where
  "lens_ok ix dl \<longleftrightarrow>
     (\<forall>t p. p \<in> set (postings ix t) \<longrightarrow> (\<exists>l. map_of dl (fst p) = Some l \<and> l \<noteq> 0))"

definition tf_doc :: "(nat \<times> int) list \<Rightarrow> posting \<Rightarrow> real" where
  "tf_doc dl p = of_int (snd p) / of_int (dict_get dl (fst p) 0)"

definition sq_contribs ::
  "(string \<Rightarrow> real) \<Rightarrow> InvIndex \<Rightarrow> (nat \<times> int) list \<Rightarrow> (nat \<times> real) list"
where
  "sq_contribs v ix dl =
     concat (map (\<lambda>t. map (\<lambda>p. (fst p, (tf_doc dl p * v t) ^ 2)) (postings ix t)) (terms ix))"

definition idf_val :: "InvIndex \<Rightarrow> string \<Rightarrow> real" where
  "idf_val ix t = (if postings ix t = [] then 0 else ln (5 / of_nat (length (postings ix t))))"

definition idf_log10_val :: "InvIndex \<Rightarrow> string \<Rightarrow> real" where
  "idf_log10_val ix t =
     (if postings ix t = [] then 0 else log 10 (5 / of_nat (length (postings ix t))))"

definition docnorm_val ::
  "(string \<Rightarrow> real) \<Rightarrow> InvIndex \<Rightarrow> (nat \<times> int) list \<Rightarrow> nat \<Rightarrow> real"
where
  "docnorm_val v ix dl d = sqrt (total (sq_contribs v ix dl) d)"

definition norms_ok :: "globals \<Rightarrow> bool" where
  "norms_ok g \<longleftrightarrow>
     (\<forall>t p. p \<in> set (postings (idx g) t) \<longrightarrow> (\<exists>n. map_of (docnorm g) (fst p) = Some n))"

definition qnorm_val :: "(string \<Rightarrow> real) \<Rightarrow> string list \<Rightarrow> real" where
  "qnorm_val v q =
     sqrt (\<Sum>t\<leftarrow>remdups q. (of_nat (count_list q t) / of_nat (length q) * v t) ^ 2)"

definition term_score ::
  "(string \<Rightarrow> real) \<Rightarrow> globals \<Rightarrow> string list \<Rightarrow> string \<Rightarrow> posting \<Rightarrow> real"
where
  "term_score v g q t p =
     (1 / of_nat (length q) * v t) * (tf_doc (doclen g) p * v t) /
       (qnorm_val v q * dict_get (docnorm g) (fst p) 0)"

definition score_contribs ::
  "(string \<Rightarrow> real) \<Rightarrow> globals \<Rightarrow> string list \<Rightarrow> (nat \<times> real) list"
where
  "score_contribs v g q =
     concat (map (\<lambda>t. map (\<lambda>p. (fst p, term_score v g q t p)) (postings (idx g) t)) q)"

definition denoms_ok :: "(string \<Rightarrow> real) \<Rightarrow> globals \<Rightarrow> string list \<Rightarrow> bool" where
  "denoms_ok v g q \<longleftrightarrow>
     (\<forall>t \<in> set q. \<forall>p \<in> set (postings (idx g) t).
        qnorm_val v q * dict_get (docnorm g) (fst p) 0 \<noteq> 0)"

definition idf_mass :: "(string \<Rightarrow> real) \<Rightarrow> string list \<Rightarrow> real" where
  "idf_mass v q = sqrt (\<Sum>t\<leftarrow>remdups q. (of_nat (count_list q t) * v t) ^ 2)"

definition taylor_exp :: "real \<Rightarrow> real" where
  "taylor_exp x = 1 + x * (1 + x / 2 * (1 + x / 3 * (1 + x / 4 * (1 + x / 5 * (1 + x / 6 *
       (1 + x / 7 * (1 + x / 8 * (1 + x / 9))))))))"

definition score_form :: "real \<Rightarrow> real \<Rightarrow> real \<Rightarrow> real" where
  "score_form N Q D = N / (sqrt Q * sqrt D)"

section \<open>Properties\<close>

subsection \<open>Results, loops and dictionaries\<close>

lemma rbind_simps [simp]: "rbind (Inr v) f = f v" "rbind (Inl e) f = Inl e"
  by (simp_all add: rbind_def)

lemma for_loop_pure:
  "(\<And>x s. x \<in> set xs \<Longrightarrow> body x s = Inr (f x s)) \<Longrightarrow> for_loop xs body s = Inr (fold f xs s)"
  by (induction xs arbitrary: s) auto

lemma for_loop_nested_pure:
  assumes "\<And>x y s. x \<in> set xs \<Longrightarrow> y \<in> set (g x) \<Longrightarrow> body x y s = Inr (F (h x y) s)"
  shows "for_loop xs (\<lambda>x. for_loop (g x) (body x)) s =
           Inr (fold F (concat (map (\<lambda>x. map (h x) (g x)) xs)) s)"
  using assms
proof (induction xs arbitrary: s)
  case Nil
  show ?case by simp
next
  case (Cons x xs)
  have "for_loop (g x) (body x) s = Inr (fold (\<lambda>y. F (h x y)) (g x) s)"
    by (rule for_loop_pure) (simp add: Cons.prems)
  moreover have "for_loop xs (\<lambda>x. for_loop (g x) (body x)) s' =
      Inr (fold F (concat (map (\<lambda>x. map (h x) (g x)) xs)) s')" for s'
    by (rule Cons.IH) (simp add: Cons.prems)
  ultimately show ?case by (simp add: fold_map comp_def)
qed

lemma for_loop_guard:
  assumes "\<And>x s. x \<in> set xs \<Longrightarrow> body x s = (if ok x then Inr (f x s) else Inl e)"
  shows "for_loop xs body s = (if \<forall>x \<in> set xs. ok x then Inr (fold f xs s) else Inl e)"
  using assms by (induction xs arbitrary: s) auto

lemma for_loop_nested_guard:
  assumes "\<And>x y s. x \<in> set xs \<Longrightarrow> y \<in> set (g x) \<Longrightarrow>
             body x y s = (if ok x y then Inr (F (h x y) s) else Inl e)"
  shows "for_loop xs (\<lambda>x. for_loop (g x) (body x)) s =
           (if \<forall>x \<in> set xs. \<forall>y \<in> set (g x). ok x y
            then Inr (fold F (concat (map (\<lambda>x. map (h x) (g x)) xs)) s) else Inl e)"
  using assms
proof (induction xs arbitrary: s)
  case Nil
  show ?case by simp
next
  case (Cons x xs)
  have inner: "for_loop (g x) (body x) s =
      (if \<forall>y \<in> set (g x). ok x y then Inr (fold (\<lambda>y. F (h x y)) (g x) s) else Inl e)"
    by (rule for_loop_guard) (simp add: Cons.prems)
  have rest: "for_loop xs (\<lambda>x. for_loop (g x) (body x)) s' =
      (if \<forall>x \<in> set xs. \<forall>y \<in> set (g x). ok x y
       then Inr (fold F (concat (map (\<lambda>x. map (h x) (g x)) xs)) s') else Inl e)" for s'
    by (rule Cons.IH) (simp add: Cons.prems)
  show ?case by (simp add: inner rest fold_map comp_def)
qed

lemma dict_get_update [simp]:
  "dict_get (AList.update k v d) k' dflt = (if k' = k then v else dict_get d k' dflt)"
  by (simp add: dict_get_def update_conv')

lemma dict_get_Nil [simp]: "dict_get [] k dflt = dflt"
  by (simp add: dict_get_def)

lemma map_of_None_iff: "map_of al k = None \<longleftrightarrow> k \<notin> fst ` set al"
  by (simp add: map_of_eq_None_iff)

lemma update_fresh: "k \<notin> fst ` set al \<Longrightarrow> AList.update k v al = al @ [(k, v)]"
  by (induction al) auto

lemma set_update_subset: "set (AList.update k v al) \<subseteq> insert (k, v) (set al)"
  by (induction al) auto

lemma total_simps [simp]:
  "total [] k = 0"
  "total (p # xs) k = (if fst p = k then snd p + total xs k else total xs k)"
  by (simp_all add: total_def)

lemma total_append [simp]: "total (xs @ ys) k = total xs k + total ys k"
  by (simp add: total_def)

lemma total_concat: "total (concat xss) k = sum_list (map (\<lambda>xs. total xs k) xss)"
  by (induction xss) auto

lemma total_as_sum: "total xs k = (\<Sum>p\<leftarrow>xs. if fst p = k then snd p else 0)"
  for xs :: "('k \<times> int) list"
  by (induction xs) auto

lemma total_scale:
  "total (map (\<lambda>p. (fst p, c * snd p)) xs) k = c * total xs k" for c :: real
  by (induction xs) (simp_all add: algebra_simps)

lemma total_mset: "total xs k = sum_mset (image_mset snd (filter_mset (\<lambda>p. fst p = k) (mset xs)))"
  for xs :: "('k \<times> real) list"
  by (simp add: total_def flip: sum_mset_sum_list mset_filter mset_map)

lemma keys_fold_accumulate:
  "fst ` set (fold accumulate xs acc) = fst ` set acc \<union> fst ` set xs"
  by (induction xs arbitrary: acc) (auto simp: accumulate_def dom_update)

lemma distinct_fold_accumulate:
  "distinct (map fst acc) \<Longrightarrow> distinct (map fst (fold accumulate xs acc))"
  by (induction xs arbitrary: acc) (auto simp: accumulate_def distinct_update)

lemma dict_get_fold_accumulate:
  "dict_get (fold accumulate xs acc) k 0 = dict_get acc k 0 + total xs k"
  for acc :: "('k \<times> 'v::monoid_add) list"
  by (induction xs arbitrary: acc) (auto simp: accumulate_def add.assoc)

lemma map_of_fold_accumulate:
  "map_of (fold accumulate xs []) k =
     (if k \<in> fst ` set xs then Some (total xs k) else None)"
  for xs :: "('k \<times> 'v::monoid_add) list"
proof (cases "k \<in> fst ` set xs")
  case True
  then have "k \<in> fst ` set (fold accumulate xs [])"
    by (simp add: keys_fold_accumulate)
  then obtain v where v: "map_of (fold accumulate xs []) k = Some v"
    by (metis map_of_None_iff not_None_eq)
  then have "dict_get (fold accumulate xs []) k 0 = v"
    by (simp add: dict_get_def)
  then have "v = total xs k"
    by (simp add: dict_get_fold_accumulate)
  with v True show ?thesis by simp
next
  case False
  then have "k \<notin> fst ` set (fold accumulate xs [])"
    by (simp add: keys_fold_accumulate)
  with False show ?thesis by (simp add: map_of_None_iff)
qed

lemma map_of_fold_accumulate_mset:
  fixes xs ys :: "('k \<times> real) list"
  assumes "mset xs = mset ys"
  shows "map_of (fold accumulate xs []) = map_of (fold accumulate ys [])"
proof
  fix k
  from assms have "set xs = set ys" by (rule mset_eq_setD)
  then show "map_of (fold accumulate xs []) k = map_of (fold accumulate ys []) k"
    by (simp add: map_of_fold_accumulate total_mset assms)
qed

lemma fold_accumulate_nonneg:
  fixes xs :: "('k \<times> real) list"
  assumes "\<forall>p \<in> set xs. 0 \<le> snd p"
  shows "0 \<le> total xs k"
  using assms by (induction xs) auto

lemma total_pos_ge:
  fixes xs :: "('k \<times> int) list"
  assumes "\<forall>p \<in> set xs. 0 < snd p" and "p \<in> set xs"
  shows "snd p \<le> total xs (fst p)"
  using assms
proof (induction xs)
  case Nil
  then show ?case by simp
next
  case (Cons x xs)
  have nn: "0 \<le> total xs k" for k
    using Cons.prems(1) by (induction xs) (auto simp: add_nonneg_nonneg less_imp_le)
  show ?case
  proof (cases "p = x")
    case True
    then show ?thesis using nn [of "fst x"] by simp
  next
    case False
    with Cons have "snd p \<le> total xs (fst p)" by simp
    with Cons.prems(1) show ?thesis by (auto simp: less_imp_le intro: add_increasing)
  qed
qed

lemma total_nonneg_ge:
  fixes xs :: "('k \<times> real) list"
  assumes "\<forall>p \<in> set xs. 0 \<le> snd p" and "p \<in> set xs"
  shows "snd p \<le> total xs (fst p)"
  using assms
proof (induction xs)
  case Nil
  then show ?case by simp
next
  case (Cons x xs)
  have nn: "0 \<le> total xs k" for k
    using Cons.prems(1) by (intro fold_accumulate_nonneg) simp
  show ?case
  proof (cases "p = x")
    case True
    then show ?thesis using nn [of "fst x"] by simp
  next
    case False
    with Cons have "snd p \<le> total xs (fst p)" by simp
    with Cons.prems(1) show ?thesis by (auto intro: add_increasing)
  qed
qed

lemma sum_list_mset_cong:
  "mset xs = mset ys \<Longrightarrow> sum_list (map w xs) = sum_list (map w ys)" for w :: "'a \<Rightarrow> real"
  by (metis mset_map sum_mset_sum_list)

lemma fold_add_sum_list:
  "fold (\<lambda>t acc. acc + w t) xs a = a + sum_list (map w xs)" for a :: real
  by (induction xs arbitrary: a) (simp_all add: add.assoc)

lemma sum_list_pos_member:
  fixes f :: "'a \<Rightarrow> real"
  assumes "\<forall>x \<in> set xs. 0 \<le> f x" and "x \<in> set xs" and "0 < f x"
  shows "0 < sum_list (map f xs)"
  using assms
proof (induction xs)
  case Nil
  then show ?case by simp
next
  case (Cons y ys)
  have nn: "0 \<le> sum_list (map f ys)"
    by (rule sum_list_nonneg) (use Cons.prems(1) in auto)
  show ?case
  proof (cases "x = y")
    case True
    with Cons.prems(3) nn show ?thesis by (simp add: add_pos_nonneg)
  next
    case False
    with Cons have "0 < sum_list (map f ys)" by simp
    with Cons.prems(1) show ?thesis by (simp add: add_nonneg_pos)
  qed
qed

subsection \<open>The index builder\<close>

lemma index_posting_loop:
  "trm \<in> fst ` set iv \<Longrightarrow>
   for_loop xs (index_posting trm) (iv, dl) =
     Inr (AList.update trm (dict_get iv trm [] @ filter (\<lambda>p. snd p > 0) xs) iv,
          fold accumulate (filter (\<lambda>p. snd p > 0) xs) dl)"
proof (induction xs arbitrary: iv dl)
  case Nil
  then obtain ps where "map_of iv trm = Some ps"
    by (metis domD dom_map_of_conv_image_fst)
  then show ?case
    by (simp add: dict_get_def update_triv)
next
  case (Cons p xs)
  obtain d f where p: "p = (d, f)" by (cases p)
  from Cons.prems obtain ps where ps: "map_of iv trm = Some ps"
    by (metis domD dom_map_of_conv_image_fst)
  show ?case
  proof (cases "f > 0")
    case False
    then show ?thesis using Cons p by (simp add: index_posting_def)
  next
    case True
    have "trm \<in> fst ` set (AList.update trm (ps @ [(d, f)]) iv)"
      by (simp add: dom_update)
    from Cons.IH [OF this] True ps show ?thesis
      by (simp add: p index_posting_def subscript_def accumulate_def dict_get_def[of iv])
  qed
qed

lemma index_term_eq:
  "index_term (trm, vec) (iv, dl) =
     Inr (AList.update trm (positive vec) iv, fold accumulate (positive vec) dl)"
proof -
  have "trm \<in> fst ` set (AList.update trm [] iv)" by (simp add: dom_update)
  from index_posting_loop [OF this] show ?thesis
    by (simp add: index_term_def positive_def)
qed

lemma build_index_loop:
  "for_loop m index_term (iv, dl) =
     Inr (fold (\<lambda>tv. AList.update (fst tv) (positive (snd tv))) m iv,
          fold accumulate (concat (map (\<lambda>tv. positive (snd tv)) m)) dl)"
proof (induction m arbitrary: iv dl)
  case Nil
  show ?case by simp
next
  case (Cons tv m)
  obtain t vec where tv: "tv = (t, vec)" by (cases tv)
  show ?case by (simp add: tv index_term_eq Cons.IH)
qed

lemma build_index_eq: "build_index m = Inr (built_inv m, built_doclen m)"
  by (simp add: build_index_def build_index_loop built_inv_def built_doclen_def)

lemma fold_update_distinct:
  "distinct (map fst m) \<Longrightarrow> fst ` set m \<inter> fst ` set iv = {} \<Longrightarrow>
   fold (\<lambda>tv. AList.update (fst tv) (h (snd tv))) m iv = iv @ map (\<lambda>tv. (fst tv, h (snd tv))) m"
proof (induction m arbitrary: iv)
  case Nil
  show ?case by simp
next
  case (Cons tv m)
  have fresh: "fst tv \<notin> fst ` set iv" using Cons.prems by auto
  have "fst ` set m \<inter> fst ` set (iv @ [(fst tv, h (snd tv))]) = {}"
    using Cons.prems by auto
  with Cons.IH [of "iv @ [(fst tv, h (snd tv))]"] Cons.prems fresh show ?case
    by (simp add: update_fresh)
qed

lemma built_inv_distinct:
  "distinct (map fst m) \<Longrightarrow> built_inv m = map (\<lambda>tv. (fst tv, positive (snd tv))) m"
  by (simp add: built_inv_def fold_update_distinct)

lemma fold_update_entries:
  "e \<in> set (fold (\<lambda>tv. AList.update (fst tv) (h (snd tv))) m iv) \<Longrightarrow>
   e \<in> set iv \<or> (\<exists>tv \<in> set m. e = (fst tv, h (snd tv)))"
proof (induction m arbitrary: iv)
  case Nil
  then show ?case by simp
next
  case (Cons tv m)
  from Cons.IH [OF Cons.prems [simplified]] set_update_subset [of "fst tv" "h (snd tv)" iv]
  show ?case by auto
qed

lemma distinct_fold_update:
  "distinct (map fst iv) \<Longrightarrow> distinct (map fst (fold (\<lambda>tv. AList.update (fst tv) (h (snd tv))) m iv))"
  by (induction m arbitrary: iv) (auto simp: distinct_update)

lemma total_positive_enum:
  "total (filter (\<lambda>p. snd p > 0) (enumerate n vec)) d =
     (if n \<le> d \<and> d < n + length vec \<and> 0 < vec ! (d - n) then vec ! (d - n) else 0)"
proof (induction vec arbitrary: n)
  case Nil
  show ?case by auto
next
  case (Cons x vec)
  show ?case
    using Cons.IH [of "Suc n"] by (auto simp: Suc_diff_le nth_Cons')
qed

lemma total_positive:
  "total (positive vec) d = (if d < length vec \<and> 0 < vec ! d then vec ! d else 0)"
  using total_positive_enum [of 0 vec d] by (simp add: positive_def)

lemma positive_snd: "p \<in> set (positive vec) \<Longrightarrow> 0 < snd p"
  by (simp add: positive_def)

lemma build_td: "build_index td_matrix = Inr
  ([(''beijing'', [(1, 1), (4, 1)]), (''dish'', [(1, 1), (4, 1)]),
    (''duck'', [(0, 3), (1, 2), (2, 2), (4, 1)]), (''rabbit'', [(2, 1), (3, 1)]),
    (''recipe'', [(2, 1), (3, 1), (4, 1)]), (''roast'', [])],
   [(1, 4), (4, 4), (0, 3), (2, 4), (3, 2)])"
  by (simp add: build_index_def td_matrix_def index_term_def index_posting_def subscript_def dict_get_def enumerate_eq_zip upt_rec)

lemma built_td:
  "built_inv td_matrix =
     [(''beijing'', [(1, 1), (4, 1)]), (''dish'', [(1, 1), (4, 1)]),
      (''duck'', [(0, 3), (1, 2), (2, 2), (4, 1)]), (''rabbit'', [(2, 1), (3, 1)]),
      (''recipe'', [(2, 1), (3, 1), (4, 1)]), (''roast'', [])]"
  "built_doclen td_matrix = [(1, 4), (4, 4), (0, 3), (2, 4), (3, 2)]"
  using build_td by (simp_all add: build_index_eq)

text \<open>
  Claim C7. For a matrix with distinct terms, every document \<open>d\<close> that occurs in a posting
  list of the built index has, in the built length table, the sum of the frequencies
  recorded for \<open>d\<close> in all the posting lists; this is also the sum over the terms of the
  matrix of the term's (positive) frequency in \<open>d\<close>.
\<close>

theorem doclen_is_sum:
  assumes "distinct (map fst m)" and "build_index m = Inr (iv, dl)"
    and "(t, ps) \<in> set iv" and "(d, f) \<in> set ps"
  shows "map_of dl d = Some (\<Sum>tp\<leftarrow>iv. \<Sum>p\<leftarrow>snd tp. if fst p = d then snd p else 0) \<and>
         map_of dl d = Some (\<Sum>tv\<leftarrow>m. if d < length (snd tv) \<and> 0 < snd tv ! d then snd tv ! d else 0)"
proof -
  let ?ps = "concat (map (\<lambda>tv. positive (snd tv)) m)"
  from assms(2) have iv: "iv = built_inv m" and dl: "dl = built_doclen m"
    by (simp_all add: build_index_eq)
  from assms(1) have iv': "iv = map (\<lambda>tv. (fst tv, positive (snd tv))) m"
    by (simp add: iv built_inv_distinct)
  from assms(3,4) have "d \<in> fst ` set ?ps"
    unfolding iv' by force
  then have "map_of dl d = Some (total ?ps d)"
    by (simp add: dl built_doclen_def map_of_fold_accumulate)
  moreover have split: "total ?ps d = (\<Sum>tv\<leftarrow>m. total (positive (snd tv)) d)"
    by (simp add: total_concat comp_def)
  moreover have "(\<Sum>tv\<leftarrow>m. total (positive (snd tv)) d) =
      (\<Sum>tp\<leftarrow>iv. \<Sum>p\<leftarrow>snd tp. if fst p = d then snd p else 0)"
    by (simp add: iv' comp_def total_as_sum)
  moreover have "(\<Sum>tv\<leftarrow>m. total (positive (snd tv)) d) =
      (\<Sum>tv\<leftarrow>m. if d < length (snd tv) \<and> 0 < snd tv ! d then snd tv ! d else 0)"
    by (simp add: total_positive)
  ultimately show ?thesis by simp
qed

theorem doclen_is_sum_witness:
  "distinct (map fst td_matrix) \<and>
   build_index td_matrix = Inr
     ([(''beijing'', [(1, 1), (4, 1)]), (''dish'', [(1, 1), (4, 1)]),
       (''duck'', [(0, 3), (1, 2), (2, 2), (4, 1)]), (''rabbit'', [(2, 1), (3, 1)]),
       (''recipe'', [(2, 1), (3, 1), (4, 1)]), (''roast'', [])],
      [(1, 4), (4, 4), (0, 3), (2, 4), (3, 2)]) \<and>
   map_of [(1, 4), (4, 4), (0, 3), (2, 4), (3, 2 :: int)] (4 :: nat) = Some (1 + 1 + 1 + 1)"
proof -
  have a: "distinct (map fst td_matrix)" by (simp add: td_matrix_def)
  have b: "(''duck'', [(0, 3), (1, 2), (2, 2), (4, 1)]) \<in> set
     [(''beijing'', [(1, 1), (4, 1)]), (''dish'', [(1, 1), (4, 1)]),
       (''duck'', [(0 :: nat, 3 :: int), (1, 2), (2, 2), (4, 1)]), (''rabbit'', [(2, 1), (3, 1)]),
       (''recipe'', [(2, 1), (3, 1), (4, 1)]), (''roast'', [])]" by simp
  have c: "(4, 1) \<in> set [(0 :: nat, 3 :: int), (1, 2), (2, 2), (4, 1)]" by simp
  show ?thesis
    using a build_td doclen_is_sum [OF a build_td b c] by simp
qed

subsection \<open>The index accessor\<close>

lemma postings_member:
  "p \<in> set (postings ix t) \<Longrightarrow> \<exists>ps. map_of (contents ix) t = Some ps \<and> p \<in> set ps"
  by (cases "map_of (contents ix) t") (auto simp: postings_def dict_get_def)

lemma postings_in_terms:
  "p \<in> set (postings ix t) \<Longrightarrow> t \<in> set (terms ix)"
  by (auto dest!: postings_member map_of_SomeD simp: terms_def intro: rev_image_eqI)

lemma postings_built:
  assumes "p \<in> set (postings (InvIndex (built_inv m)) t)"
  shows "p \<in> set (concat (map (\<lambda>tv. positive (snd tv)) m))"
proof -
  from postings_member [OF assms] obtain ps where ps: "map_of (built_inv m) t = Some ps" "p \<in> set ps"
    by auto
  then have "(t, ps) \<in> set (built_inv m)" by (simp add: map_of_SomeD)
  then obtain tv where "tv \<in> set m" "ps = positive (snd tv)"
    unfolding built_inv_def by (auto dest: fold_update_entries)
  with ps show ?thesis by auto
qed

lemma td_postings:
  "postings (InvIndex (built_inv td_matrix)) t =
     (if t = ''beijing'' then [(1, 1), (4, 1)]
      else if t = ''dish'' then [(1, 1), (4, 1)]
      else if t = ''duck'' then [(0, 3), (1, 2), (2, 2), (4, 1)]
      else if t = ''rabbit'' then [(2, 1), (3, 1)]
      else if t = ''recipe'' then [(2, 1), (3, 1), (4, 1)]
      else [])"
  by (simp add: built_td postings_def dict_get_def)

text \<open>
  Claim C4. \<open>postings\<close> returns the stored posting list for a term that is a key of
  the index and the empty list for any other term; it is a total function with no
  exception among its results.
\<close>

theorem postings_total:
  assumes "distinct (map fst (contents self))"
  shows "((t, ps) \<in> set (contents self) \<longrightarrow> postings self t = ps) \<and>
         (t \<notin> fst ` set (contents self) \<longrightarrow> postings self t = [])"
proof (intro conjI impI)
  assume "(t, ps) \<in> set (contents self)"
  with assms have "map_of (contents self) t = Some ps" by simp
  then show "postings self t = ps" by (simp add: postings_def dict_get_def)
next
  assume "t \<notin> fst ` set (contents self)"
  then have "map_of (contents self) t = None" by (simp add: map_of_None_iff)
  then show "postings self t = []" by (simp add: postings_def dict_get_def)
qed

theorem postings_total_witness:
  "distinct (map fst (contents (InvIndex [(''duck'', [(0, 3), (1, 2)]), (''roast'', [])]))) \<and>
   (''duck'', [(0, 3), (1, 2)]) \<in> set (contents (InvIndex [(''duck'', [(0, 3), (1, 2)]), (''roast'', [])])) \<and>
   postings (InvIndex [(''duck'', [(0, 3), (1, 2)]), (''roast'', [])]) ''duck'' = [(0, 3), (1, 2)] \<and>
   ''goose'' \<notin> fst ` set (contents (InvIndex [(''duck'', [(0, 3), (1, 2)]), (''roast'', [])])) \<and>
   postings (InvIndex [(''duck'', [(0, 3), (1, 2)]), (''roast'', [])]) ''goose'' = []"
proof -
  let ?ix = "InvIndex [(''duck'', [(0, 3), (1, 2)]), (''roast'', [])]"
  have d: "distinct (map fst (contents ?ix))" by simp
  have a: "(''duck'', [(0, 3), (1, 2)]) \<in> set (contents ?ix)" by simp
  have b: "''goose'' \<notin> fst ` set (contents ?ix)" by simp
  from postings_total [OF d, of "''duck''" "[(0, 3), (1, 2)]"] a
  have "postings ?ix ''duck'' = [(0, 3), (1, 2)]" by blast
  moreover from postings_total [OF d, of "''goose''"] b
  have "postings ?ix ''goose'' = []" by blast
  ultimately show ?thesis using d a b by blast
qed

subsection \<open>The IDF\<close>

lemma idf_eq: "idf ix t = Inr (idf_val ix t)"
  by (simp add: idf_def idf_val_def truediv_def math_log_def NUM_DOCS_def)

lemma idf_log10_eq: "idf_log10 ix t = Inr (idf_log10_val ix t)"
  by (simp add: idf_log10_def idf_log10_val_def truediv_def math_log10_def NUM_DOCS_def)

lemma idf_val_empty: "postings ix t = [] \<Longrightarrow> idf_val ix t = 0"
  by (simp add: idf_val_def)

lemma idf_log10_val_eq: "idf_log10_val ix t = idf_val ix t / ln 10"
  by (simp add: idf_log10_val_def idf_val_def log_def)

lemma td_idf_pos:
  assumes "p \<in> set (postings (InvIndex (built_inv td_matrix)) t)"
  shows "0 < idf_val (InvIndex (built_inv td_matrix)) t"
  using assms unfolding idf_val_def td_postings by (simp split: if_splits)

lemma td_idf_val:
  "idf_val (InvIndex (built_inv td_matrix)) ''beijing'' = ln (5 / 2)"
  "idf_val (InvIndex (built_inv td_matrix)) ''dish'' = ln (5 / 2)"
  "idf_val (InvIndex (built_inv td_matrix)) ''duck'' = ln (5 / 4)"
  "idf_val (InvIndex (built_inv td_matrix)) ''rabbit'' = ln (5 / 2)"
  "idf_val (InvIndex (built_inv td_matrix)) ''recipe'' = ln (5 / 3)"
  by (simp_all add: idf_val_def td_postings)

text \<open>
  Claim C3. For a term whose posting list is empty (a term with no postings, or a term
  that is not a key of the index), \<open>idf\<close> returns 0 and raises nothing.
\<close>

theorem idf_zero_postings:
  assumes "length (postings ix t) = 0"
  shows "idf ix t = Inr 0"
  using assms by (simp add: idf_def)

theorem idf_zero_postings_witness:
  "length (postings (InvIndex [(''duck'', [(0, 3), (1, 2)]), (''roast'', [])]) ''roast'') = 0 \<and>
   idf (InvIndex [(''duck'', [(0, 3), (1, 2)]), (''roast'', [])]) ''roast'' = Inr 0 \<and>
   length (postings (InvIndex [(''duck'', [(0, 3), (1, 2)]), (''roast'', [])]) ''goose'') = 0 \<and>
   idf (InvIndex [(''duck'', [(0, 3), (1, 2)]), (''roast'', [])]) ''goose'' = Inr 0"
proof -
  let ?ix = "InvIndex [(''duck'', [(0, 3), (1, 2)]), (''roast'', [])]"
  have a: "length (postings ?ix ''roast'') = 0" by (simp add: postings_def dict_get_def)
  have b: "length (postings ?ix ''goose'') = 0" by (simp add: postings_def dict_get_def)
  from a b idf_zero_postings [OF a] idf_zero_postings [OF b] show ?thesis by simp
qed

subsection \<open>The document norms\<close>

lemma lens_ok_built: "lens_ok (InvIndex (built_inv m)) (built_doclen m)"
  unfolding lens_ok_def
proof (intro allI impI)
  fix t p
  let ?ps = "concat (map (\<lambda>tv. positive (snd tv)) m)"
  assume "p \<in> set (postings (InvIndex (built_inv m)) t)"
  then have p: "p \<in> set ?ps" by (rule postings_built)
  have pos: "\<forall>q \<in> set ?ps. 0 < snd q" by (auto dest: positive_snd)
  from p have "map_of (built_doclen m) (fst p) = Some (total ?ps (fst p))"
    by (simp add: built_doclen_def map_of_fold_accumulate)
  moreover from total_pos_ge [OF pos p] pos p have "total ?ps (fst p) \<noteq> 0" by force
  ultimately show "\<exists>l. map_of (built_doclen m) (fst p) = Some l \<and> l \<noteq> 0" by simp
qed

lemma doclen_built_pos:
  assumes "p \<in> set (postings (InvIndex (built_inv m)) t)"
  shows "0 < snd p \<and> 0 < dict_get (built_doclen m) (fst p) 0"
proof -
  let ?ps = "concat (map (\<lambda>tv. positive (snd tv)) m)"
  from assms have p: "p \<in> set ?ps" by (rule postings_built)
  have pos: "\<forall>q \<in> set ?ps. 0 < snd q" by (auto dest: positive_snd)
  have "dict_get (built_doclen m) (fst p) 0 = total ?ps (fst p)"
    by (simp add: built_doclen_def dict_get_fold_accumulate)
  with total_pos_ge [OF pos p] pos p show ?thesis by force
qed

lemma tf_doc_built_pos:
  assumes "p \<in> set (postings (InvIndex (built_inv m)) t)"
  shows "0 < tf_doc (built_doclen m) p"
  using doclen_built_pos [OF assms] by (simp add: tf_doc_def)

lemma docnorm_posting_eq:
  assumes "lens_ok ix dl" and "idf_fn ix t = Inr (v t)" and "p \<in> set (postings ix t)"
  shows "docnorm_posting idf_fn ix dl t p acc =
           Inr (accumulate (fst p, (tf_doc dl p * v t) ^ 2) acc)"
proof -
  from assms(1,3) obtain l where l: "map_of dl (fst p) = Some l" "l \<noteq> 0"
    unfolding lens_ok_def by blast
  then show ?thesis
    by (cases p)
      (simp add: docnorm_posting_def subscript_def truediv_def assms(2) accumulate_def
        tf_doc_def dict_get_def [of dl])
qed

lemma docnorm_sum_phase:
  assumes "lens_ok ix dl" and "\<And>t. idf_fn ix t = Inr (v t)"
  shows "for_loop (terms ix) (\<lambda>trm. for_loop (postings ix trm) (docnorm_posting idf_fn ix dl trm)) acc
           = Inr (fold accumulate (sq_contribs v ix dl) acc)"
  unfolding sq_contribs_def
  by (rule for_loop_nested_pure) (simp add: docnorm_posting_eq assms)

lemma docnorm_sqrt_loop:
  assumes "distinct ks" and "set ks \<subseteq> fst ` set acc"
    and "\<And>k x. map_of acc k = Some x \<Longrightarrow> 0 \<le> x"
  shows "\<exists>acc'. for_loop ks docnorm_sqrt acc = Inr acc' \<and>
           (\<forall>d. map_of acc' d = (if d \<in> set ks then map_option sqrt (map_of acc d) else map_of acc d))"
  using assms
proof (induction ks arbitrary: acc)
  case Nil
  show ?case by simp
next
  case (Cons k ks)
  from Cons.prems(2) obtain x where x: "map_of acc k = Some x"
    by (metis list.set_intros(1) map_of_None_iff not_None_eq subsetD)
  with Cons.prems(3) have x0: "0 \<le> x" by simp
  let ?acc = "AList.update k (sqrt x) acc"
  have step: "docnorm_sqrt k acc = Inr ?acc"
    using x x0 by (simp add: docnorm_sqrt_def subscript_def math_sqrt_def)
  have "distinct ks" using Cons.prems(1) by simp
  moreover have "set ks \<subseteq> fst ` set ?acc"
    using Cons.prems(2) by (auto simp: dom_update)
  moreover have "\<And>k' y. map_of ?acc k' = Some y \<Longrightarrow> 0 \<le> y"
    using Cons.prems(3) x0 by (auto simp: update_conv' split: if_splits)
  ultimately obtain acc' where acc': "for_loop ks docnorm_sqrt ?acc = Inr acc'"
    "\<And>d. map_of acc' d = (if d \<in> set ks then map_option sqrt (map_of ?acc d) else map_of ?acc d)"
    using Cons.IH [of ?acc] by blast
  have "map_of acc' d = (if d \<in> set (k # ks) then map_option sqrt (map_of acc d) else map_of acc d)" for d
    using acc'(2) [of d] Cons.prems(1) x by (auto simp: update_conv')
  with step acc'(1) show ?case by simp
qed

lemma docnorm_pre_eq:
  assumes "lens_ok ix dl" and "\<And>t. idf_fn ix t = Inr (v t)"
  shows "\<exists>dn. docnorm_pre idf_fn ix dl = Inr dn \<and>
           (\<forall>d. map_of dn d =
              (if d \<in> fst ` set (sq_contribs v ix dl) then Some (docnorm_val v ix dl d) else None))"
proof -
  let ?sq = "sq_contribs v ix dl"
  let ?acc = "fold accumulate ?sq []"
  have nn: "\<forall>p \<in> set ?sq. 0 \<le> snd p" by (auto simp: sq_contribs_def)
  have "distinct (map fst ?acc)" by (simp add: distinct_fold_accumulate)
  moreover have "set (map fst ?acc) \<subseteq> fst ` set ?acc" by simp
  moreover have "\<And>k x. map_of ?acc k = Some x \<Longrightarrow> 0 \<le> x"
    using fold_accumulate_nonneg [OF nn] by (auto simp: map_of_fold_accumulate split: if_splits)
  ultimately obtain dn where dn: "for_loop (map fst ?acc) docnorm_sqrt ?acc = Inr dn"
    "\<And>d. map_of dn d =
       (if d \<in> set (map fst ?acc) then map_option sqrt (map_of ?acc d) else map_of ?acc d)"
    using docnorm_sqrt_loop [of "map fst ?acc" ?acc] by blast
  have "docnorm_pre idf_fn ix dl = Inr dn"
    using docnorm_sum_phase [of ix dl idf_fn v "[]"] assms dn(1)
    by (simp add: docnorm_pre_def)
  moreover have "map_of dn d =
      (if d \<in> fst ` set ?sq then Some (docnorm_val v ix dl d) else None)" for d
    using dn(2) [of d]
    by (simp add: keys_fold_accumulate map_of_fold_accumulate docnorm_val_def)
  ultimately show ?thesis by blast
qed

lemma posting_in_sq_contribs:
  assumes "p \<in> set (postings ix t)"
  shows "fst p \<in> fst ` set (sq_contribs v ix dl)"
proof -
  from assms have "t \<in> set (terms ix)" by (rule postings_in_terms)
  with assms have "(fst p, (tf_doc dl p * v t) ^ 2) \<in> set (sq_contribs v ix dl)"
    by (auto simp: sq_contribs_def)
  then show ?thesis by (rule rev_image_eqI) simp
qed

lemma init_globals_eq:
  assumes "\<And>ix t. idf_fn ix t = Inr (v ix t)"
  shows "\<exists>g. init_globals idf_fn m = Inr g \<and> idx g = InvIndex (built_inv m) \<and>
           doclen g = built_doclen m \<and>
           (\<forall>d. map_of (docnorm g) d =
              (if d \<in> fst ` set (sq_contribs (v (idx g)) (idx g) (doclen g))
               then Some (docnorm_val (v (idx g)) (idx g) (doclen g) d) else None))"
proof -
  let ?ix = "InvIndex (built_inv m)" and ?dl = "built_doclen m"
  have "lens_ok ?ix ?dl" by (rule lens_ok_built)
  moreover have "\<And>t. idf_fn ?ix t = Inr (v ?ix t)" by (rule assms)
  ultimately obtain dn where dn: "docnorm_pre idf_fn ?ix ?dl = Inr dn"
    "\<And>d. map_of dn d = (if d \<in> fst ` set (sq_contribs (v ?ix) ?ix ?dl)
       then Some (docnorm_val (v ?ix) ?ix ?dl d) else None)"
    using docnorm_pre_eq [of ?ix ?dl idf_fn "v ?ix"] by blast
  show ?thesis
    by (rule exI [of _ "\<lparr>idx = ?ix, doclen = ?dl, docnorm = dn\<rparr>"])
      (simp add: init_globals_def build_index_eq dn)
qed

lemma init_globals_ok:
  assumes "\<And>ix t. idf_fn ix t = Inr (v ix t)" and "init_globals idf_fn m = Inr g"
  shows "lens_ok (idx g) (doclen g)" and "norms_ok g"
proof -
  from init_globals_eq [of idf_fn v m, OF assms(1)] assms(2)
  have g: "idx g = InvIndex (built_inv m)" "doclen g = built_doclen m"
    "\<And>d. map_of (docnorm g) d =
       (if d \<in> fst ` set (sq_contribs (v (idx g)) (idx g) (doclen g))
        then Some (docnorm_val (v (idx g)) (idx g) (doclen g) d) else None)"
    by auto
  show "lens_ok (idx g) (doclen g)" by (simp add: g(1,2) lens_ok_built)
  show "norms_ok g"
    unfolding norms_ok_def by (auto simp: g(3) posting_in_sq_contribs)
qed

lemma init_globals_td:
  assumes "init_globals idf td_matrix = Inr g"
  shows "idx g = InvIndex (built_inv td_matrix)"
  using init_globals_eq [of idf idf_val td_matrix] assms by (auto simp: idf_eq)

lemma docnorm_val_pos:
  assumes "p \<in> set (postings ix t)" and "tf_doc dl p * v t \<noteq> 0"
  shows "0 < docnorm_val v ix dl (fst p)"
proof -
  let ?sq = "sq_contribs v ix dl"
  from assms(1) have "t \<in> set (terms ix)" by (rule postings_in_terms)
  with assms(1) have mem: "(fst p, (tf_doc dl p * v t) ^ 2) \<in> set ?sq"
    by (auto simp: sq_contribs_def)
  have nn: "\<forall>e \<in> set ?sq. 0 \<le> snd e" by (auto simp: sq_contribs_def)
  from total_nonneg_ge [OF nn mem] have "(tf_doc dl p * v t) ^ 2 \<le> total ?sq (fst p)" by simp
  moreover from assms(2) have "0 < (tf_doc dl p * v t) ^ 2" by simp
  ultimately have "0 < total ?sq (fst p)" by (rule less_le_trans [rotated])
  then show ?thesis by (simp add: docnorm_val_def)
qed

lemma docnorm_built_pos:
  assumes "init_globals idf m = Inr g" and "p \<in> set (postings (idx g) t)"
    and "idf_val (idx g) t \<noteq> 0"
  shows "\<exists>n. map_of (docnorm g) (fst p) = Some n \<and> 0 < n"
proof -
  from init_globals_eq [of idf idf_val m] assms(1)
  have g: "idx g = InvIndex (built_inv m)" "doclen g = built_doclen m"
    "\<And>d. map_of (docnorm g) d =
       (if d \<in> fst ` set (sq_contribs (idf_val (idx g)) (idx g) (doclen g))
        then Some (docnorm_val (idf_val (idx g)) (idx g) (doclen g) d) else None)"
    by (auto simp: idf_eq)
  from assms(2) have "0 < tf_doc (doclen g) p"
    unfolding g(1,2) by (rule tf_doc_built_pos)
  with assms(3) have "tf_doc (doclen g) p * idf_val (idx g) t \<noteq> 0" by simp
  with docnorm_val_pos [of p "idx g" t "doclen g" "idf_val (idx g)"] assms(2)
    posting_in_sq_contribs [OF assms(2)]
  show ?thesis by (simp add: g(3))
qed


lemma td_docnorm_pos:
  assumes "init_globals idf td_matrix = Inr g" and "p \<in> set (postings (idx g) t)"
  shows "\<exists>n. map_of (docnorm g) (fst p) = Some n \<and> 0 < n"
proof -
  have ix: "idx g = InvIndex (built_inv td_matrix)" using assms(1) by (rule init_globals_td)
  from assms(2) have "0 < idf_val (idx g) t" unfolding ix by (rule td_idf_pos)
  then have "idf_val (idx g) t \<noteq> 0" by simp
  with assms show ?thesis by (rule docnorm_built_pos)
qed

subsection \<open>The scorer\<close>

lemma qnorm_loop:
  assumes "\<And>t. idf_fn (idx g) t = Inr (v t)"
  shows "for_loop (remdups q) (qnorm_term idf_fn g q) 0 =
           Inr (\<Sum>t\<leftarrow>remdups q. (of_nat (count_list q t) / of_nat (length q) * v t) ^ 2)"
proof -
  have "for_loop (remdups q) (qnorm_term idf_fn g q) 0 =
      Inr (fold (\<lambda>t acc. acc + (of_nat (count_list q t) / of_nat (length q) * v t) ^ 2) (remdups q) 0)"
  proof (rule for_loop_pure)
    fix t s
    assume "t \<in> set (remdups q)"
    then have "q \<noteq> []" by auto
    then show "qnorm_term idf_fn g q t s =
        Inr (s + (of_nat (count_list q t) / of_nat (length q) * v t) ^ 2)"
      by (simp add: qnorm_term_def truediv_def assms)
  qed
  then show ?thesis by (simp add: fold_add_sum_list)
qed

lemma score_posting_eq:
  assumes "lens_ok (idx g) (doclen g)" and "norms_ok g"
    and "\<And>t. idf_fn (idx g) t = Inr (v t)"
    and "t \<in> set q" and "p \<in> set (postings (idx g) t)"
  shows "score_posting idf_fn g q (qnorm_val v q) t p s =
           (if qnorm_val v q * dict_get (docnorm g) (fst p) 0 \<noteq> 0
            then Inr (accumulate (fst p, term_score v g q t p) s)
            else Inl ZeroDivisionError)"
proof -
  from assms(1,5) obtain l where l: "map_of (doclen g) (fst p) = Some l" "l \<noteq> 0"
    unfolding lens_ok_def by blast
  from assms(2,5) obtain n where n: "map_of (docnorm g) (fst p) = Some n"
    unfolding norms_ok_def by blast
  from assms(4) have "q \<noteq> []" by auto
  with l n show ?thesis
    by (cases p)
      (simp add: score_posting_def subscript_def truediv_def assms(3) accumulate_def
        term_score_def tf_doc_def dict_get_def [of "doclen g"] dict_get_def [of "docnorm g"])
qed

lemma score_tt_eq:
  assumes "lens_ok (idx g) (doclen g)" and "norms_ok g"
    and "\<And>t. idf_fn (idx g) t = Inr (v t)"
  shows "score_tt idf_fn g q =
           (if denoms_ok v g q then Inr (fold accumulate (score_contribs v g q) [])
            else Inl ZeroDivisionError)"
proof -
  let ?s = "\<Sum>t\<leftarrow>remdups q. (of_nat (count_list q t) / of_nat (length q) * v t) ^ 2"
  have "0 \<le> ?s" by (rule sum_list_nonneg) auto
  then have sq: "math_sqrt ?s = Inr (qnorm_val v q)"
    by (simp add: math_sqrt_def qnorm_val_def)
  have loop: "for_loop q (\<lambda>trm. for_loop (postings (idx g) trm)
        (score_posting idf_fn g q (qnorm_val v q) trm)) [] =
      (if \<forall>t \<in> set q. \<forall>p \<in> set (postings (idx g) t).
            qnorm_val v q * dict_get (docnorm g) (fst p) 0 \<noteq> 0
       then Inr (fold accumulate
              (concat (map (\<lambda>t. map (\<lambda>p. (fst p, term_score v g q t p)) (postings (idx g) t)) q)) [])
       else Inl ZeroDivisionError)"
    by (rule for_loop_nested_guard) (rule score_posting_eq [OF assms(1,2)], (simp add: assms(3))+)
  have q1: "for_loop (remdups q) (qnorm_term idf_fn g q) 0 = Inr ?s"
    by (rule qnorm_loop) (rule assms(3))
  show ?thesis
    by (simp only: score_tt_def q1 rbind_simps sq loop denoms_ok_def score_contribs_def)
qed

lemma score_tt_built:
  assumes "init_globals idf m = Inr g"
  shows "score_tt idf g q =
      (if denoms_ok (idf_val (idx g)) g q
       then Inr (fold accumulate (score_contribs (idf_val (idx g)) g q) [])
       else Inl ZeroDivisionError)"
proof -
  have ok: "lens_ok (idx g) (doclen g)" "norms_ok g"
    using init_globals_ok [of idf idf_val m g] assms by (simp_all add: idf_eq)
  show ?thesis by (rule score_tt_eq [OF ok]) (rule idf_eq)
qed

lemma qnorm_val_mass: "qnorm_val v q = idf_mass v q / of_nat (length q)"
proof -
  have "(\<lambda>t. (real (count_list q t) / real (length q) * v t) ^ 2) =
        (\<lambda>t. (1 / real (length q)) ^ 2 * (real (count_list q t) * v t) ^ 2)"
    by (simp add: fun_eq_iff power_mult_distrib power_divide)
  then have "(\<Sum>t\<leftarrow>remdups q. (real (count_list q t) / real (length q) * v t) ^ 2) =
        (1 / real (length q)) ^ 2 * (\<Sum>t\<leftarrow>remdups q. (real (count_list q t) * v t) ^ 2)"
    by (simp only: sum_list_const_mult)
  then show ?thesis
    by (simp add: qnorm_val_def idf_mass_def real_sqrt_mult real_sqrt_divide)
qed

lemma term_score_mass:
  assumes "q \<noteq> []"
  shows "term_score v g q t p =
           v t * (tf_doc (doclen g) p * v t) / (idf_mass v q * dict_get (docnorm g) (fst p) 0)"
  using assms by (simp add: term_score_def qnorm_val_mass)

lemma qnorm_val_pos:
  assumes "t \<in> set q" and "v t \<noteq> 0"
  shows "0 < qnorm_val v q"
proof -
  let ?w = "\<lambda>t. (real (count_list q t) / real (length q) * v t) ^ 2"
  from assms(1) have "0 < count_list q t" by (metis count_list_0_iff gr0I)
  moreover from assms(1) have "0 < length q" by (cases q) auto
  ultimately have "0 < ?w t" using assms(2) by simp
  moreover have "\<forall>u \<in> set (remdups q). 0 \<le> ?w u" by simp
  moreover have "t \<in> set (remdups q)" using assms(1) by simp
  ultimately have "0 < sum_list (map ?w (remdups q))" by (rule sum_list_pos_member [rotated 2])
  then show ?thesis by (simp add: qnorm_val_def)
qed

lemma td_denoms_ok:
  assumes "init_globals idf td_matrix = Inr g"
  shows "denoms_ok (idf_val (idx g)) g q"
  unfolding denoms_ok_def
proof (intro ballI)
  fix t p
  assume t: "t \<in> set q" and p: "p \<in> set (postings (idx g) t)"
  have ix: "idx g = InvIndex (built_inv td_matrix)" using assms by (rule init_globals_td)
  from p have "0 < idf_val (idx g) t" unfolding ix by (rule td_idf_pos)
  then have "0 < qnorm_val (idf_val (idx g)) q" using t by (intro qnorm_val_pos [of t]) simp_all
  moreover from td_docnorm_pos [OF assms p] have "0 < dict_get (docnorm g) (fst p) 0"
    by (auto simp: dict_get_def)
  ultimately show "qnorm_val (idf_val (idx g)) q * dict_get (docnorm g) (fst p) 0 \<noteq> 0" by simp
qed

text \<open>
  Claim C10. For the empty query \<open>score_tt\<close> returns the empty table and raises
  nothing, on any tables; so does the notebook run from any matrix.
\<close>

theorem empty_query: "score_tt idf g [] = Inr [] \<and> scores_of idf m [] = Inr []"
proof -
  have a: "score_tt idf h [] = Inr []" for h
    by (simp add: score_tt_def math_sqrt_def)
  obtain h where "init_globals idf m = Inr h"
    using init_globals_eq [of idf idf_val m] by (auto simp: idf_eq)
  then show ?thesis by (simp add: scores_of_def a)
qed

subsection \<open>The order of the query terms\<close>

lemma qnorm_val_perm:
  assumes "mset q = mset q'"
  shows "qnorm_val v q = qnorm_val v q'"
proof -
  from assms have "set q = set q'" by (rule mset_eq_setD)
  then have r: "mset (remdups q) = mset (remdups q')"
    by (simp add: set_eq_iff_mset_remdups_eq)
  have c: "count_list q t = count_list q' t" for t
    using assms by (metis count_mset)
  have l: "length q = length q'" using assms by (rule mset_eq_length)
  show ?thesis
    unfolding qnorm_val_def c l by (simp add: sum_list_mset_cong [OF r])
qed

lemma score_contribs_perm:
  assumes "mset q = mset q'"
  shows "mset (score_contribs v g q) = mset (score_contribs v g q')"
proof -
  have l: "length q = length q'" using assms by (rule mset_eq_length)
  have ts: "term_score v g q = term_score v g q'"
    by (simp add: term_score_def fun_eq_iff l qnorm_val_perm [OF assms])
  have "mset (concat (map f q)) = mset (concat (map f q'))" for f :: "string \<Rightarrow> (nat \<times> real) list"
    using assms by (metis mset_concat mset_map sum_mset_sum_list)
  then show ?thesis by (simp add: score_contribs_def ts)
qed

lemma denoms_ok_perm:
  assumes "mset q = mset q'"
  shows "denoms_ok v g q = denoms_ok v g q'"
  using mset_eq_setD [OF assms] by (simp add: denoms_ok_def qnorm_val_perm [OF assms])

text \<open>
  Claim C5. For every matrix and every two queries that are permutations of each other,
  the notebook either returns for both a score table with the same documents and the
  same score for each document, or raises the same exception for both. The scores are
  those of exact arithmetic, where the order of the additions does not matter.
\<close>

theorem score_tt_permutation:
  assumes "mset q = mset q'"
  shows "(\<exists>s s'. scores_of idf m q = Inr s \<and> scores_of idf m q' = Inr s' \<and> map_of s = map_of s') \<or>
         (\<exists>e. scores_of idf m q = Inl e \<and> scores_of idf m q' = Inl e)"
proof -
  obtain g where g: "init_globals idf m = Inr g"
    using init_globals_eq [of idf idf_val m] by (auto simp: idf_eq)
  have ok: "lens_ok (idx g) (doclen g)" "norms_ok g"
    using init_globals_ok [of idf idf_val m g] g by (simp_all add: idf_eq)
  have sc: "score_tt idf g r =
      (if denoms_ok (idf_val (idx g)) g r
       then Inr (fold accumulate (score_contribs (idf_val (idx g)) g r) [])
       else Inl ZeroDivisionError)" for r
    by (rule score_tt_eq [OF ok]) (rule idf_eq)
  show ?thesis
    using map_of_fold_accumulate_mset [OF score_contribs_perm [OF assms, of "idf_val (idx g)" g]]
    by (simp add: scores_of_def g sc denoms_ok_perm [OF assms])
qed

theorem score_tt_permutation_witness:
  "mset [''beijing'', ''duck'', ''recipe''] = mset [''recipe'', ''beijing'', ''duck''] \<and>
   ((\<exists>s s'. scores_of idf td_matrix [''beijing'', ''duck'', ''recipe''] = Inr s \<and>
       scores_of idf td_matrix [''recipe'', ''beijing'', ''duck''] = Inr s' \<and> map_of s = map_of s') \<or>
    (\<exists>e. scores_of idf td_matrix [''beijing'', ''duck'', ''recipe''] = Inl e \<and>
       scores_of idf td_matrix [''recipe'', ''beijing'', ''duck''] = Inl e))"
proof -
  have p: "mset [''beijing'', ''duck'', ''recipe''] = mset [''recipe'', ''beijing'', ''duck'']"
    by simp
  from p score_tt_permutation [OF p, of td_matrix] show ?thesis by blast
qed

subsection \<open>Query terms without postings\<close>

lemma count_list_removeAll: "u \<noteq> t \<Longrightarrow> count_list (removeAll t q) u = count_list q u"
  by (induction q) auto

lemma idf_mass_removeAll:
  assumes "v t = 0"
  shows "idf_mass v (removeAll t q) = idf_mass v q"
proof -
  let ?w = "\<lambda>q u. (real (count_list q u) * v u) ^ 2"
  have r: "remdups (removeAll t q) = filter (\<lambda>u. u \<noteq> t) (remdups q)"
    by (induction q) auto
  have "map (?w (removeAll t q)) (filter (\<lambda>u. u \<noteq> t) (remdups q)) =
        map (?w q) (filter (\<lambda>u. u \<noteq> t) (remdups q))"
    by (rule map_cong) (simp_all add: count_list_removeAll)
  then have "sum_list (map (?w (removeAll t q)) (remdups (removeAll t q))) =
        sum_list (map (?w q) (filter (\<lambda>u. u \<noteq> t) (remdups q)))"
    by (simp only: r)
  also have "\<dots> = sum_list (map (\<lambda>u. if u \<noteq> t then ?w q u else 0) (remdups q))"
    by (rule sum_list_map_filter')
  also have "(\<lambda>u. if u \<noteq> t then ?w q u else 0) = ?w q"
    using assms by (auto simp: fun_eq_iff)
  finally show ?thesis by (simp only: idf_mass_def)
qed

lemma concat_map_removeAll:
  assumes "f t = []"
  shows "concat (map f (removeAll t q)) = concat (map f q)"
  using assms by (induction q) auto

lemma score_contribs_removeAll:
  assumes "postings (idx g) t = []" and "v t = 0"
  shows "score_contribs v g (removeAll t q) = score_contribs v g q"
proof (cases "removeAll t q = []")
  case True
  then have "\<forall>u \<in> set q. u = t" by (induction q) (auto split: if_splits)
  then have "concat (map (\<lambda>u. map (h u) (postings (idx g) u)) q) = []" for h :: "string \<Rightarrow> posting \<Rightarrow> nat \<times> real"
    using assms(1) by (induction q) auto
  with True show ?thesis by (simp add: score_contribs_def)
next
  case False
  then have ne: "q \<noteq> []" by auto
  let ?f = "\<lambda>q u. map (\<lambda>p. (fst p, term_score v g q u p)) (postings (idx g) u)"
  have "?f (removeAll t q) = ?f q"
    using idf_mass_removeAll [of v t q] assms(2)
    by (simp add: fun_eq_iff term_score_mass [OF False] term_score_mass [OF ne])
  moreover have "concat (map (?f q) (removeAll t q)) = concat (map (?f q) q)"
    by (rule concat_map_removeAll) (simp add: assms(1))
  ultimately show ?thesis by (simp add: score_contribs_def)
qed

lemma denoms_ok_removeAll:
  assumes "postings (idx g) t = []" and "v t = 0"
  shows "denoms_ok v g (removeAll t q) = denoms_ok v g q"
proof -
  have eq: "(\<forall>u \<in> set (removeAll t q). \<forall>p \<in> set (postings (idx g) u). P u p) =
        (\<forall>u \<in> set q. \<forall>p \<in> set (postings (idx g) u). P u p)" for P
    using assms(1) by auto
  show ?thesis
  proof (cases "removeAll t q = []")
    case True
    then have "\<forall>u \<in> set q. u = t" by (induction q) (auto split: if_splits)
    with True assms(1) show ?thesis by (auto simp: denoms_ok_def)
  next
    case False
    then have ne: "q \<noteq> []" by auto
    from False ne idf_mass_removeAll [of v t q] assms(2) show ?thesis
      unfolding denoms_ok_def eq
      by (simp add: qnorm_val_mass)
  qed
qed

lemma score_tt_removeAll:
  assumes "init_globals idf m = Inr g" and "postings (idx g) t = []"
  shows "score_tt idf g (removeAll t q) = score_tt idf g q"
  using assms(2)
  by (simp add: score_tt_built [OF assms(1)] score_contribs_removeAll denoms_ok_removeAll
      idf_val_empty)

text \<open>
  Claim C6. For the tables built from any matrix and a term with an empty posting list,
  \<open>score_tt\<close> gives the same result for a query and for the query with that term
  removed (all of its occurrences, or one of them): the term adds nothing to the query
  norm, and the change of the query length cancels between the query-side weight and
  the query norm. For the notebook's matrix the result is a score table, never an
  exception.
\<close>

theorem absent_term_removed:
  assumes "init_globals idf m = Inr g" and "postings (idx g) t = []"
  shows "score_tt idf g (removeAll t q) = score_tt idf g q \<and>
         score_tt idf g (remove1 t q) = score_tt idf g q \<and>
         (m = td_matrix \<longrightarrow> (\<exists>s. score_tt idf g q = Inr s))"
proof (intro conjI impI)
  show a: "score_tt idf g (removeAll t q) = score_tt idf g q"
    using assms by (rule score_tt_removeAll)
  have "score_tt idf g (removeAll t (remove1 t q)) = score_tt idf g (remove1 t q)"
    using assms by (rule score_tt_removeAll)
  moreover have "removeAll t (remove1 t q) = removeAll t q"
    by (induction q) auto
  ultimately show "score_tt idf g (remove1 t q) = score_tt idf g q" using a by simp
next
  assume "m = td_matrix"
  with assms(1) have g: "init_globals idf td_matrix = Inr g" by simp
  show "\<exists>s. score_tt idf g q = Inr s"
    by (simp add: score_tt_built [OF g] td_denoms_ok [OF g])
qed

theorem absent_term_removed_witness:
  "\<exists>g. init_globals idf td_matrix = Inr g \<and> postings (idx g) ''roast'' = [] \<and>
     score_tt idf g (removeAll ''roast'' [''roast'', ''duck'', ''roast'']) =
       score_tt idf g [''roast'', ''duck'', ''roast''] \<and>
     score_tt idf g (remove1 ''roast'' [''roast'', ''duck'', ''roast'']) =
       score_tt idf g [''roast'', ''duck'', ''roast''] \<and>
     (\<exists>s. score_tt idf g [''roast'', ''duck'', ''roast''] = Inr s)"
proof -
  obtain g where g: "init_globals idf td_matrix = Inr g"
    using init_globals_eq [of idf idf_val td_matrix] by (auto simp: idf_eq)
  have e: "postings (idx g) ''roast'' = []"
    by (simp add: init_globals_td [OF g] td_postings)
  from absent_term_removed [OF g e, of "[''roast'', ''duck'', ''roast'']"] g e
  show ?thesis by blast
qed

subsection \<open>The base of the logarithm\<close>

lemma ln10_gt_1: "1 < ln (10 :: real)"
proof -
  have "exp 1 < (10 :: real)" using exp_le by simp
  then have "ln (exp 1) < ln (10 :: real)" by (subst ln_less_cancel_iff) simp_all
  then show ?thesis by simp
qed

text \<open>
  Claim C2. On the notebook's index the term \<open>beijing\<close> has two postings, and
  \<open>idf\<close> returns the natural logarithm of \<open>5 / 2\<close>, which is not the base-10
  logarithm of \<open>5 / 2\<close>.
\<close>

theorem idf_is_natural_log:
  "\<exists>g. init_globals idf td_matrix = Inr g \<and> length (postings (idx g) ''beijing'') = 2 \<and>
     idf (idx g) ''beijing'' = Inr (ln (5 / 2)) \<and>
     idf (idx g) ''beijing'' \<noteq> Inr (log 10 (5 / 2))"
proof -
  obtain g where g: "init_globals idf td_matrix = Inr g"
    using init_globals_eq [of idf idf_val td_matrix] by (auto simp: idf_eq)
  have l: "length (postings (idx g) ''beijing'') = 2"
    by (simp add: init_globals_td [OF g] td_postings)
  have i: "idf (idx g) ''beijing'' = Inr (ln (5 / 2))"
    by (simp add: idf_eq idf_val_def init_globals_td [OF g] td_postings)
  have "0 < ln (5 / 2 :: real)" by simp
  then have "ln (5 / 2 :: real) / ln 10 < ln (5 / 2)"
    using ln10_gt_1 by (simp add: field_simps)
  then have "ln (5 / 2 :: real) \<noteq> log 10 (5 / 2)" by (simp add: log_def)
  with g l i show ?thesis by auto
qed

lemma sq_contribs_scale:
  "sq_contribs (\<lambda>t. v t / c) ix dl = map (\<lambda>p. (fst p, (1 / c) ^ 2 * snd p)) (sq_contribs v ix dl)"
  by (simp add: sq_contribs_def map_concat comp_def power_mult_distrib power_divide)

lemma keys_sq_contribs_scale:
  "fst ` set (sq_contribs (\<lambda>t. v t / c) ix dl) = fst ` set (sq_contribs v ix dl)"
  by (simp add: sq_contribs_scale image_image)

lemma sqrt_scale: "0 < c \<Longrightarrow> sqrt ((1 / c) ^ 2 * x) = sqrt x / c" for c :: real
  by (simp add: real_sqrt_mult real_sqrt_divide)

lemma docnorm_val_scale:
  assumes "0 < c"
  shows "docnorm_val (\<lambda>t. v t / c) ix dl d = docnorm_val v ix dl d / c"
proof -
  have "total (sq_contribs (\<lambda>t. v t / c) ix dl) d = (1 / c) ^ 2 * total (sq_contribs v ix dl) d"
    by (simp only: sq_contribs_scale total_scale)
  then show ?thesis
    by (simp only: docnorm_val_def sqrt_scale [OF assms])
qed

lemma qnorm_val_scale:
  assumes "0 < c"
  shows "qnorm_val (\<lambda>t. v t / c) q = qnorm_val v q / c"
proof -
  have "(\<lambda>t. (real (count_list q t) / real (length q) * (v t / c)) ^ 2) =
        (\<lambda>t. (1 / c) ^ 2 * (real (count_list q t) / real (length q) * v t) ^ 2)"
    by (simp add: fun_eq_iff power_mult_distrib power_divide)
  then have "(\<Sum>t\<leftarrow>remdups q. (real (count_list q t) / real (length q) * (v t / c)) ^ 2) =
        (1 / c) ^ 2 * (\<Sum>t\<leftarrow>remdups q. (real (count_list q t) / real (length q) * v t) ^ 2)"
    by (simp only: sum_list_const_mult)
  then show ?thesis
    by (simp only: qnorm_val_def sqrt_scale [OF assms])
qed

lemma term_score_scale:
  assumes "0 < c" and "dict_get (docnorm g') (fst p) 0 = dict_get (docnorm g) (fst p) 0 / c"
    and "doclen g' = doclen g"
  shows "term_score (\<lambda>t. v t / c) g' q t p = term_score v g q t p"
  using assms(1) by (simp add: term_score_def qnorm_val_scale assms(2,3))

text \<open>
  Claim C9. With the base-10 logarithm in place of the natural logarithm in the IDF
  (in the document norms and in the scorer), the notebook returns the same result for
  every matrix and every query: the factor \<open>1 / ln 10\<close> of every IDF value cancels
  in each term score (in exact arithmetic). \<open>idf_log10\<close> is the IDF as the
  specification words it, \<open>idf\<close> the one of the code.
\<close>

theorem log_base_irrelevant: "scores_of idf_log10 m q = scores_of idf m q"
proof -
  let ?c = "ln (10 :: real)"
  obtain g where g: "init_globals idf m = Inr g" "idx g = InvIndex (built_inv m)"
    "doclen g = built_doclen m"
    "\<And>d. map_of (docnorm g) d =
       (if d \<in> fst ` set (sq_contribs (idf_val (idx g)) (idx g) (doclen g))
        then Some (docnorm_val (idf_val (idx g)) (idx g) (doclen g) d) else None)"
    using init_globals_eq [of idf idf_val m] by (auto simp: idf_eq)
  obtain h where h: "init_globals idf_log10 m = Inr h" "idx h = InvIndex (built_inv m)"
    "doclen h = built_doclen m"
    "\<And>d. map_of (docnorm h) d =
       (if d \<in> fst ` set (sq_contribs (idf_log10_val (idx h)) (idx h) (doclen h))
        then Some (docnorm_val (idf_log10_val (idx h)) (idx h) (doclen h) d) else None)"
    using init_globals_eq [of idf_log10 idf_log10_val m] by (auto simp: idf_log10_eq)
  let ?v = "idf_val (idx g)"
  have ih: "idx h = idx g" and dh: "doclen h = doclen g" by (simp_all add: g h)
  have v10: "idf_log10_val (idx g) = (\<lambda>t. ?v t / ?c)"
    by (simp add: fun_eq_iff idf_log10_val_eq)
  have dn: "dict_get (docnorm h) d 0 = dict_get (docnorm g) d 0 / ?c" for d
    by (simp add: dict_get_def g(4) h(4) v10 ih dh keys_sq_contribs_scale docnorm_val_scale)
  have okg: "lens_ok (idx g) (doclen g)" "norms_ok g"
    using init_globals_ok [of idf idf_val m g] g(1) by (simp_all add: idf_eq)
  have okh: "lens_ok (idx h) (doclen h)" "norms_ok h"
    using init_globals_ok [of idf_log10 idf_log10_val m h] h(1) by (simp_all add: idf_log10_eq)
  have sg: "score_tt idf g q =
      (if denoms_ok ?v g q then Inr (fold accumulate (score_contribs ?v g q) [])
       else Inl ZeroDivisionError)"
    by (rule score_tt_eq [OF okg]) (rule idf_eq)
  have sh: "score_tt idf_log10 h q =
      (if denoms_ok (\<lambda>t. ?v t / ?c) h q
       then Inr (fold accumulate (score_contribs (\<lambda>t. ?v t / ?c) h q) [])
       else Inl ZeroDivisionError)"
    using score_tt_eq [OF okh, of idf_log10 "idf_log10_val (idx h)" q]
    by (simp add: idf_log10_eq ih v10)
  have ts: "term_score (\<lambda>t. ?v t / ?c) h q t p = term_score ?v g q t p" for t p
    by (rule term_score_scale) (simp_all add: dn dh)
  have sc: "score_contribs (\<lambda>t. ?v t / ?c) h q = score_contribs ?v g q"
    by (simp add: score_contribs_def ts ih)
  have dk: "denoms_ok (\<lambda>t. ?v t / ?c) h q = denoms_ok ?v g q"
    by (simp add: denoms_ok_def ih dn qnorm_val_scale)
  show ?thesis
    by (simp add: scores_of_def g(1) h(1) sg sh sc dk)
qed

subsection \<open>The worked example\<close>

lemma exp_taylor_bounds:
  fixes x :: real
  assumes "0 \<le> x" and "x \<le> 1"
  shows "(\<Sum>m<n. x ^ m / fact m) \<le> exp x"
    and "exp x \<le> (\<Sum>m<n. x ^ m / fact m) + 3 * x ^ n / fact n"
proof -
  obtain t where t: "\<bar>t\<bar> \<le> \<bar>x\<bar>"
    and e: "exp x = (\<Sum>m<n. x ^ m / fact m) + (exp t / fact n) * x ^ n"
    using Maclaurin_exp_le [of x n] by blast
  have "0 \<le> (exp t / fact n) * x ^ n" using assms(1) by simp
  with e show "(\<Sum>m<n. x ^ m / fact m) \<le> exp x" by linarith
  from t assms have "t \<le> 1" by linarith
  then have "exp t \<le> exp 1" by simp
  with exp_le have "exp t \<le> 3" by linarith
  then have "exp t * (x ^ n / fact n) \<le> 3 * (x ^ n / fact n)"
    using assms(1) by (intro mult_right_mono) simp_all
  with e show "exp x \<le> (\<Sum>m<n. x ^ m / fact m) + 3 * x ^ n / fact n"
    by (simp add: field_simps)
qed

lemma taylor10:
  "(\<Sum>m<10. x ^ m / fact m) =
     1 + x * (1 + x / 2 * (1 + x / 3 * (1 + x / 4 * (1 + x / 5 * (1 + x / 6 *
       (1 + x / 7 * (1 + x / 8 * (1 + x / 9))))))))" for x :: real
  by (simp add: eval_nat_numeral fact_numeral algebra_simps)

lemma ln_lower:
  fixes a y :: real
  assumes "0 \<le> a" and "a \<le> 1" and "taylor_exp a + 3 * a ^ 10 / 3628800 < y"
  shows "a < ln y"
proof -
  have "exp a \<le> taylor_exp a + 3 * a ^ 10 / 3628800"
    using exp_taylor_bounds(2) [OF assms(1,2), of 10]
    by (simp only: taylor10 taylor_exp_def) (simp add: fact_numeral)
  with assms(3) have "exp a < y" by linarith
  moreover have "0 < exp a" by simp
  ultimately have "ln (exp a) < ln y" by (subst ln_less_cancel_iff) linarith+
  then show ?thesis by simp
qed

lemma ln_upper:
  fixes b y :: real
  assumes "0 \<le> b" and "b \<le> 1" and "0 < y" and "y < taylor_exp b"
  shows "ln y < b"
proof -
  have "taylor_exp b \<le> exp b"
    using exp_taylor_bounds(1) [OF assms(1,2), of 10]
    by (simp only: taylor10 taylor_exp_def)
  with assms(4) have "y < exp b" by linarith
  with assms(3) have "ln y < ln (exp b)" by (subst ln_less_cancel_iff) simp_all
  then show ?thesis by simp
qed

lemma ln_5_2: "91629 / 100000 < ln (5 / 2 :: real)" "ln (5 / 2 :: real) < 9163 / 10000"
  by (rule ln_lower ln_upper; simp add: taylor_exp_def power_divide)+

lemma ln_5_4: "22314 / 100000 < ln (5 / 4 :: real)" "ln (5 / 4 :: real) < 22315 / 100000"
  by (rule ln_lower ln_upper; simp add: taylor_exp_def power_divide)+

lemma ln_5_3: "51082 / 100000 < ln (5 / 3 :: real)" "ln (5 / 3 :: real) < 51083 / 100000"
  by (rule ln_lower ln_upper; simp add: taylor_exp_def power_divide)+

lemma idf_square_bounds:
  "839587 / 1000000 \<le> (ln (5 / 2 :: real))\<^sup>2" "(ln (5 / 2 :: real))\<^sup>2 \<le> 839606 / 1000000"
  "49791 / 1000000 \<le> (ln (5 / 4 :: real))\<^sup>2" "(ln (5 / 4 :: real))\<^sup>2 \<le> 49796 / 1000000"
  "260937 / 1000000 \<le> (ln (5 / 3 :: real))\<^sup>2" "(ln (5 / 3 :: real))\<^sup>2 \<le> 260948 / 1000000"
proof -
  have "(91629 / 100000)\<^sup>2 \<le> (ln (5 / 2 :: real))\<^sup>2"
    by (rule power_mono) (use ln_5_2(1) in simp_all)
  then show "839587 / 1000000 \<le> (ln (5 / 2 :: real))\<^sup>2" by (simp add: power2_eq_square)
  have "(ln (5 / 2 :: real))\<^sup>2 \<le> (9163 / 10000)\<^sup>2"
    by (rule power_mono) (use ln_5_2(2) in simp_all)
  then show "(ln (5 / 2 :: real))\<^sup>2 \<le> 839606 / 1000000" by (simp add: power2_eq_square)
  have "(22314 / 100000)\<^sup>2 \<le> (ln (5 / 4 :: real))\<^sup>2"
    by (rule power_mono) (use ln_5_4(1) in simp_all)
  then show "49791 / 1000000 \<le> (ln (5 / 4 :: real))\<^sup>2" by (simp add: power2_eq_square)
  have "(ln (5 / 4 :: real))\<^sup>2 \<le> (22315 / 100000)\<^sup>2"
    by (rule power_mono) (use ln_5_4(2) in simp_all)
  then show "(ln (5 / 4 :: real))\<^sup>2 \<le> 49796 / 1000000" by (simp add: power2_eq_square)
  have "(51082 / 100000)\<^sup>2 \<le> (ln (5 / 3 :: real))\<^sup>2"
    by (rule power_mono) (use ln_5_3(1) in simp_all)
  then show "260937 / 1000000 \<le> (ln (5 / 3 :: real))\<^sup>2" by (simp add: power2_eq_square)
  have "(ln (5 / 3 :: real))\<^sup>2 \<le> (51083 / 100000)\<^sup>2"
    by (rule power_mono) (use ln_5_3(2) in simp_all)
  then show "(ln (5 / 3 :: real))\<^sup>2 \<le> 260948 / 1000000" by (simp add: power2_eq_square)
qed

lemma interval_score:
  fixes N Q D lo hi :: real
  assumes N: "Nl \<le> N" "N \<le> Nu" "0 < Nl" and Q: "Ql \<le> Q" "Q \<le> Qu" "0 < Ql"
    and D: "Dl \<le> D" "D \<le> Du" "0 < Dl"
    and lo: "0 \<le> lo" and hi: "0 < hi"
    and l: "lo\<^sup>2 * (Qu * Du) < Nl\<^sup>2" and h: "Nu\<^sup>2 < hi\<^sup>2 * (Ql * Dl)"
  shows "lo < N / (sqrt Q * sqrt D) \<and> N / (sqrt Q * sqrt D) < hi"
proof -
  let ?s = "sqrt Q * sqrt D"
  have Q0: "0 < Q" using Q(1,3) by linarith
  have D0: "0 < D" using D(1,3) by linarith
  have N0: "0 < N" using N(1,3) by linarith
  have Qu0: "0 \<le> Qu" using Q0 Q(2) by linarith
  have s: "0 < ?s" using Q0 D0 by simp
  have ls: "(lo * ?s)\<^sup>2 = lo\<^sup>2 * (Q * D)" using Q0 D0 by (simp add: power_mult_distrib)
  have hs: "(hi * ?s)\<^sup>2 = hi\<^sup>2 * (Q * D)" using Q0 D0 by (simp add: power_mult_distrib)
  have "Q * D \<le> Qu * Du"
    by (rule mult_mono) (use Q(2) D(2) Qu0 D0 in simp_all)
  then have "lo\<^sup>2 * (Q * D) \<le> lo\<^sup>2 * (Qu * Du)" by (rule mult_left_mono) simp
  also note l
  also have "Nl\<^sup>2 \<le> N\<^sup>2" by (rule power_mono) (use N(1,3) in simp_all)
  finally have "(lo * ?s)\<^sup>2 < N\<^sup>2" by (simp only: ls)
  then have "lo * ?s < N" by (rule power2_less_imp_less) (use N0 in simp)
  then have a: "lo < N / ?s" using s by (simp add: pos_less_divide_eq)
  have "N\<^sup>2 \<le> Nu\<^sup>2" by (rule power_mono) (use N(2) N0 in simp_all)
  also note h
  also have "hi\<^sup>2 * (Ql * Dl) \<le> hi\<^sup>2 * (Q * D)"
  proof (rule mult_left_mono)
    show "Ql * Dl \<le> Q * D"
      by (rule mult_mono) (use Q(1,3) D(1,3) Q0 in simp_all)
  qed simp
  finally have "N\<^sup>2 < (hi * ?s)\<^sup>2" by (simp only: hs)
  then have "N < hi * ?s" by (rule power2_less_imp_less) (use s hi in simp)
  then have "N / ?s < hi" using s by (simp add: pos_divide_less_eq)
  with a show ?thesis by simp
qed

lemma score_bounds:
  fixes x y z :: real
  assumes x: "839587 / 1000000 \<le> x" "x \<le> 839606 / 1000000"
    and y: "49791 / 1000000 \<le> y" "y \<le> 49796 / 1000000"
    and z: "260937 / 1000000 \<le> z" "z \<le> 260948 / 1000000"
  shows "7596 / 10000 < score_form ((x + y + z) / 4) (x + y + z) ((2 * x + y + z) / 16) \<and>
         score_form ((x + y + z) / 4) (x + y + z) ((2 * x + y + z) / 16) < 7604 / 10000"
    and "6386 / 10000 < score_form ((x + 2 * y) / 4) (x + y + z) ((2 * x + 4 * y) / 16) \<and>
         score_form ((x + 2 * y) / 4) (x + y + z) ((2 * x + 4 * y) / 16) < 6394 / 10000"
    and "2946 / 10000 < score_form ((2 * y + z) / 4) (x + y + z) ((x + 4 * y + z) / 16) \<and>
         score_form ((2 * y + z) / 4) (x + y + z) ((x + 4 * y + z) / 16) < 2954 / 10000"
    and "2316 / 10000 < score_form (z / 2) (x + y + z) ((x + z) / 4) \<and>
         score_form (z / 2) (x + y + z) ((x + z) / 4) < 2324 / 10000"
    and "2076 / 10000 < score_form y (x + y + z) y \<and>
         score_form y (x + y + z) y < 2084 / 10000"
proof -
  let ?xl = "839587 / 1000000 :: real" and ?xu = "839606 / 1000000 :: real"
  let ?yl = "49791 / 1000000 :: real" and ?yu = "49796 / 1000000 :: real"
  let ?zl = "260937 / 1000000 :: real" and ?zu = "260948 / 1000000 :: real"
  show "7596 / 10000 < score_form ((x + y + z) / 4) (x + y + z) ((2 * x + y + z) / 16) \<and>
         score_form ((x + y + z) / 4) (x + y + z) ((2 * x + y + z) / 16) < 7604 / 10000"
    unfolding score_form_def
    by (rule interval_score [where Nl = "(?xl + ?yl + ?zl) / 4" and Nu = "(?xu + ?yu + ?zu) / 4"
          and Ql = "?xl + ?yl + ?zl" and Qu = "?xu + ?yu + ?zu"
          and Dl = "(2 * ?xl + ?yl + ?zl) / 16" and Du = "(2 * ?xu + ?yu + ?zu) / 16"])
      (use x y z in \<open>simp_all add: power2_eq_square\<close>)
  show "6386 / 10000 < score_form ((x + 2 * y) / 4) (x + y + z) ((2 * x + 4 * y) / 16) \<and>
         score_form ((x + 2 * y) / 4) (x + y + z) ((2 * x + 4 * y) / 16) < 6394 / 10000"
    unfolding score_form_def
    by (rule interval_score [where Nl = "(?xl + 2 * ?yl) / 4" and Nu = "(?xu + 2 * ?yu) / 4"
          and Ql = "?xl + ?yl + ?zl" and Qu = "?xu + ?yu + ?zu"
          and Dl = "(2 * ?xl + 4 * ?yl) / 16" and Du = "(2 * ?xu + 4 * ?yu) / 16"])
      (use x y z in \<open>simp_all add: power2_eq_square\<close>)
  show "2946 / 10000 < score_form ((2 * y + z) / 4) (x + y + z) ((x + 4 * y + z) / 16) \<and>
         score_form ((2 * y + z) / 4) (x + y + z) ((x + 4 * y + z) / 16) < 2954 / 10000"
    unfolding score_form_def
    by (rule interval_score [where Nl = "(2 * ?yl + ?zl) / 4" and Nu = "(2 * ?yu + ?zu) / 4"
          and Ql = "?xl + ?yl + ?zl" and Qu = "?xu + ?yu + ?zu"
          and Dl = "(?xl + 4 * ?yl + ?zl) / 16" and Du = "(?xu + 4 * ?yu + ?zu) / 16"])
      (use x y z in \<open>simp_all add: power2_eq_square\<close>)
  show "2316 / 10000 < score_form (z / 2) (x + y + z) ((x + z) / 4) \<and>
         score_form (z / 2) (x + y + z) ((x + z) / 4) < 2324 / 10000"
    unfolding score_form_def
    by (rule interval_score [where Nl = "?zl / 2" and Nu = "?zu / 2"
          and Ql = "?xl + ?yl + ?zl" and Qu = "?xu + ?yu + ?zu"
          and Dl = "(?xl + ?zl) / 4" and Du = "(?xu + ?zu) / 4"])
      (use x y z in \<open>simp_all add: power2_eq_square\<close>)
  show "2076 / 10000 < score_form y (x + y + z) y \<and>
         score_form y (x + y + z) y < 2084 / 10000"
    unfolding score_form_def
    by (rule interval_score [where Nl = "?yl" and Nu = "?yu"
          and Ql = "?xl + ?yl + ?zl" and Qu = "?xu + ?yu + ?zu"
          and Dl = "?yl" and Du = "?yu"])
      (use x y z in \<open>simp_all add: power2_eq_square\<close>)
qed

lemma round_half_even_eq:
  assumes "of_int k - 1 / 2 < x" and "x < of_int k + 1 / 2"
  shows "round_half_even x = k"
proof -
  have "\<lfloor>x\<rfloor> = k - 1 \<or> \<lfloor>x\<rfloor> = k" using assms by linarith
  then show ?thesis
  proof
    assume f: "\<lfloor>x\<rfloor> = k - 1"
    with assms show ?thesis by (simp add: round_half_even_def Let_def)
  next
    assume f: "\<lfloor>x\<rfloor> = k"
    with assms show ?thesis by (simp add: round_half_even_def Let_def)
  qed
qed

lemma py_round_3:
  assumes "(of_int k - 1 / 2) / 1000 < s" and "s < (of_int k + 1 / 2) / 1000"
  shows "py_round s 3 = of_int k / 1000"
proof -
  have "round_half_even (s * 10 ^ 3) = k"
    using assms by (intro round_half_even_eq) (simp_all add: field_simps)
  then show ?thesis by (simp add: py_round_def)
qed

lemma sort_scores:
  fixes s0 s1 s2 s3 s4 :: real
  assumes "s1 < s4" "s2 < s1" "s3 < s2" "s0 < s3"
  shows "sort_key (\<lambda>x. - snd x) [(1 :: nat, s1), (4, s4), (0, s0), (2, s2), (3, s3)] =
           [(4, s4), (1, s1), (2, s2), (3, s3), (0, s0)]"
  using assms by simp

lemma labels:
  "''D'' @ str (4 + 1) @ '':'' = ''D5:''" "''D'' @ str (1 + 1) @ '':'' = ''D2:''"
  "''D'' @ str (2 + 1) @ '':'' = ''D3:''" "''D'' @ str (3 + 1) @ '':'' = ''D4:''"
  "''D'' @ str (0 + 1) @ '':'' = ''D1:''"
  by (simp_all add: str.simps digit_def)

lemma td_sq_contribs:
  "sq_contribs v (InvIndex (built_inv td_matrix)) (built_doclen td_matrix) =
     [(1, (1 / 4 * v ''beijing'') ^ 2), (4, (1 / 4 * v ''beijing'') ^ 2),
      (1, (1 / 4 * v ''dish'') ^ 2), (4, (1 / 4 * v ''dish'') ^ 2),
      (0, (3 / 3 * v ''duck'') ^ 2), (1, (2 / 4 * v ''duck'') ^ 2),
      (2, (2 / 4 * v ''duck'') ^ 2), (4, (1 / 4 * v ''duck'') ^ 2),
      (2, (1 / 4 * v ''rabbit'') ^ 2), (3, (1 / 2 * v ''rabbit'') ^ 2),
      (2, (1 / 4 * v ''recipe'') ^ 2), (3, (1 / 2 * v ''recipe'') ^ 2),
      (4, (1 / 4 * v ''recipe'') ^ 2)]"
  by (simp add: sq_contribs_def terms_def td_postings tf_doc_def dict_get_def built_td(2))
    (simp add: built_td(1))

lemma td_docnorm_val:
  fixes v :: "string \<Rightarrow> real"
  defines "dn \<equiv> docnorm_val v (InvIndex (built_inv td_matrix)) (built_doclen td_matrix)"
  shows "dn 0 = sqrt ((3 / 3 * v ''duck'') ^ 2)"
    and "dn 1 = sqrt ((1 / 4 * v ''beijing'') ^ 2 + (1 / 4 * v ''dish'') ^ 2 + (2 / 4 * v ''duck'') ^ 2)"
    and "dn 2 = sqrt ((2 / 4 * v ''duck'') ^ 2 + (1 / 4 * v ''rabbit'') ^ 2 + (1 / 4 * v ''recipe'') ^ 2)"
    and "dn 3 = sqrt ((1 / 2 * v ''rabbit'') ^ 2 + (1 / 2 * v ''recipe'') ^ 2)"
    and "dn 4 = sqrt ((1 / 4 * v ''beijing'') ^ 2 + (1 / 4 * v ''dish'') ^ 2 + (1 / 4 * v ''duck'') ^ 2 + (1 / 4 * v ''recipe'') ^ 2)"
  unfolding dn_def docnorm_val_def td_sq_contribs by simp_all

lemma td_docnorm_get:
  assumes "init_globals idf td_matrix = Inr g" and "d \<in> {0, 1, 2, 3, 4}"
  shows "dict_get (docnorm g) d 0 =
           docnorm_val (idf_val (InvIndex (built_inv td_matrix)))
             (InvIndex (built_inv td_matrix)) (built_doclen td_matrix) d"
proof -
  from init_globals_eq [of idf idf_val td_matrix] assms(1)
  have g: "idx g = InvIndex (built_inv td_matrix)" "doclen g = built_doclen td_matrix"
    "\<And>d. map_of (docnorm g) d =
       (if d \<in> fst ` set (sq_contribs (idf_val (idx g)) (idx g) (doclen g))
        then Some (docnorm_val (idf_val (idx g)) (idx g) (doclen g) d) else None)"
    by (auto simp: idf_eq)
  from assms(2) have "d \<in> fst ` set (sq_contribs (idf_val (idx g)) (idx g) (doclen g))"
    unfolding g(1,2) td_sq_contribs by auto
  then show ?thesis
    by (simp add: dict_get_def g(3)) (simp add: g(1,2))
qed

lemma td_idf_mass:
  "idf_mass v [''beijing'', ''duck'', ''recipe''] =
     sqrt ((v ''beijing'') ^ 2 + (v ''duck'') ^ 2 + (v ''recipe'') ^ 2)"
  by (simp add: idf_mass_def)

lemma td_term_score:
  assumes g: "init_globals idf td_matrix = Inr g"
    and d: "fst p \<in> {0, 1, 2, 3, 4}"
  shows "term_score (idf_val (idx g)) g [''beijing'', ''duck'', ''recipe''] t p =
     idf_val (InvIndex (built_inv td_matrix)) t *
       (tf_doc (built_doclen td_matrix) p * idf_val (InvIndex (built_inv td_matrix)) t) /
     (sqrt ((ln (5 / 2))\<^sup>2 + (ln (5 / 4))\<^sup>2 + (ln (5 / 3))\<^sup>2) *
      docnorm_val (idf_val (InvIndex (built_inv td_matrix)))
        (InvIndex (built_inv td_matrix)) (built_doclen td_matrix) (fst p))"
proof -
  from init_globals_eq [of idf idf_val td_matrix] g
  have e: "idx g = InvIndex (built_inv td_matrix)" "doclen g = built_doclen td_matrix"
    by (auto simp: idf_eq)
  show ?thesis
    by (simp only: term_score_mass [of "[''beijing'', ''duck'', ''recipe'']", simplified]
        td_docnorm_get [OF g d] e td_idf_mass td_idf_val)
qed

lemma td_score_contribs:
  assumes "idx g = InvIndex (built_inv td_matrix)"
  shows "score_contribs v g [''beijing'', ''duck'', ''recipe''] =
    (let q = [''beijing'', ''duck'', ''recipe''] in
     [(1, term_score v g q ''beijing'' (1, 1)), (4, term_score v g q ''beijing'' (4, 1)),
      (0, term_score v g q ''duck'' (0, 3)), (1, term_score v g q ''duck'' (1, 2)),
      (2, term_score v g q ''duck'' (2, 2)), (4, term_score v g q ''duck'' (4, 1)),
      (2, term_score v g q ''recipe'' (2, 1)), (3, term_score v g q ''recipe'' (3, 1)),
      (4, term_score v g q ''recipe'' (4, 1))])"
  by (simp add: score_contribs_def assms td_postings Let_def)

lemma fold_accumulate_td:
  "fold accumulate [(1 :: nat, a1 :: real), (4, a2), (0, a3), (1, a4), (2, a5), (4, a6), (2, a7), (3, a8), (4, a9)] [] =
     [(1, a1 + a4), (4, a2 + a6 + a9), (0, a3), (2, a5 + a7), (3, a8)]"
  by (simp add: accumulate_def dict_get_def)

lemma td_score_values:
  assumes g: "init_globals idf td_matrix = Inr g"
  defines "x \<equiv> (ln (5 / 2 :: real))\<^sup>2" and "y \<equiv> (ln (5 / 4 :: real))\<^sup>2"
    and "z \<equiv> (ln (5 / 3 :: real))\<^sup>2"
  shows "score_tt idf g [''beijing'', ''duck'', ''recipe''] = Inr
     [(1, score_form ((x + 2 * y) / 4) (x + y + z) ((2 * x + 4 * y) / 16)),
      (4, score_form ((x + y + z) / 4) (x + y + z) ((2 * x + y + z) / 16)),
      (0, score_form y (x + y + z) y),
      (2, score_form ((2 * y + z) / 4) (x + y + z) ((x + 4 * y + z) / 16)),
      (3, score_form (z / 2) (x + y + z) ((x + z) / 4))]"
proof -
  let ?q = "[''beijing'', ''duck'', ''recipe'']"
  let ?v = "idf_val (idx g)"
  have ix: "idx g = InvIndex (built_inv td_matrix)" using g by (rule init_globals_td)
  have tf: "tf_doc (built_doclen td_matrix) (1, 1) = 1 / 4"
    "tf_doc (built_doclen td_matrix) (4, 1) = 1 / 4"
    "tf_doc (built_doclen td_matrix) (0, 3) = 1"
    "tf_doc (built_doclen td_matrix) (1, 2) = 2 / 4"
    "tf_doc (built_doclen td_matrix) (2, 2) = 2 / 4"
    "tf_doc (built_doclen td_matrix) (2, 1) = 1 / 4"
    "tf_doc (built_doclen td_matrix) (3, 1) = 1 / 2"
    "tf_doc (built_doclen td_matrix) (Suc 0, 1) = 1 / 4"
    "tf_doc (built_doclen td_matrix) (Suc 0, 2) = 2 / 4"
    by (simp_all add: tf_doc_def built_td(2) dict_get_def)
  have dn: "docnorm_val (idf_val (InvIndex (built_inv td_matrix)))
        (InvIndex (built_inv td_matrix)) (built_doclen td_matrix) 0 = sqrt y"
    "docnorm_val (idf_val (InvIndex (built_inv td_matrix)))
        (InvIndex (built_inv td_matrix)) (built_doclen td_matrix) 1 = sqrt ((2 * x + 4 * y) / 16)"
    "docnorm_val (idf_val (InvIndex (built_inv td_matrix)))
        (InvIndex (built_inv td_matrix)) (built_doclen td_matrix) 2 = sqrt ((x + 4 * y + z) / 16)"
    "docnorm_val (idf_val (InvIndex (built_inv td_matrix)))
        (InvIndex (built_inv td_matrix)) (built_doclen td_matrix) 3 = sqrt ((x + z) / 4)"
    "docnorm_val (idf_val (InvIndex (built_inv td_matrix)))
        (InvIndex (built_inv td_matrix)) (built_doclen td_matrix) 4 = sqrt ((2 * x + y + z) / 16)"
    unfolding td_docnorm_val td_idf_val x_def y_def z_def
    by (simp_all add: power_mult_distrib power_divide field_simps)
  have ts: "term_score ?v g ?q ''beijing'' (1, 1) = score_form (x / 4) (x + y + z) ((2 * x + 4 * y) / 16)"
    "term_score ?v g ?q ''duck'' (1, 2) = score_form (2 * y / 4) (x + y + z) ((2 * x + 4 * y) / 16)"
    "term_score ?v g ?q ''beijing'' (4, 1) = score_form (x / 4) (x + y + z) ((2 * x + y + z) / 16)"
    "term_score ?v g ?q ''duck'' (4, 1) = score_form (y / 4) (x + y + z) ((2 * x + y + z) / 16)"
    "term_score ?v g ?q ''recipe'' (4, 1) = score_form (z / 4) (x + y + z) ((2 * x + y + z) / 16)"
    "term_score ?v g ?q ''duck'' (0, 3) = score_form y (x + y + z) y"
    "term_score ?v g ?q ''duck'' (2, 2) = score_form (2 * y / 4) (x + y + z) ((x + 4 * y + z) / 16)"
    "term_score ?v g ?q ''recipe'' (2, 1) = score_form (z / 4) (x + y + z) ((x + 4 * y + z) / 16)"
    "term_score ?v g ?q ''recipe'' (3, 1) = score_form (z / 2) (x + y + z) ((x + z) / 4)"
    unfolding score_form_def x_def y_def z_def
    by (simp_all add: td_term_score [OF g] td_idf_val tf
          dn [unfolded x_def y_def z_def] dn [unfolded x_def y_def z_def, simplified]
          power2_eq_square)
  have "score_tt idf g ?q = Inr (fold accumulate (score_contribs ?v g ?q) [])"
    by (simp add: score_tt_built [OF g] td_denoms_ok [OF g])
  also have "fold accumulate (score_contribs ?v g ?q) [] =
     [(1, term_score ?v g ?q ''beijing'' (1, 1) + term_score ?v g ?q ''duck'' (1, 2)),
      (4, term_score ?v g ?q ''beijing'' (4, 1) + term_score ?v g ?q ''duck'' (4, 1) +
          term_score ?v g ?q ''recipe'' (4, 1)),
      (0, term_score ?v g ?q ''duck'' (0, 3)),
      (2, term_score ?v g ?q ''duck'' (2, 2) + term_score ?v g ?q ''recipe'' (2, 1)),
      (3, term_score ?v g ?q ''recipe'' (3, 1))]"
    by (simp only: td_score_contribs [OF ix] Let_def fold_accumulate_td)
  also have "\<dots> =
     [(1, score_form ((x + 2 * y) / 4) (x + y + z) ((2 * x + 4 * y) / 16)),
      (4, score_form ((x + y + z) / 4) (x + y + z) ((2 * x + y + z) / 16)),
      (0, score_form y (x + y + z) y),
      (2, score_form ((2 * y + z) / 4) (x + y + z) ((x + 4 * y + z) / 16)),
      (3, score_form (z / 2) (x + y + z) ((x + z) / 4))]"
    unfolding ts by (simp add: score_form_def add_divide_distrib)
  finally show ?thesis .
qed

lemma display_of_bounds:
  fixes t0 t1 t2 t3 t4 :: real
  assumes "7595 / 10000 < t4" "t4 < 7605 / 10000" "6385 / 10000 < t1" "t1 < 6395 / 10000"
    "2945 / 10000 < t2" "t2 < 2955 / 10000" "2315 / 10000 < t3" "t3 < 2325 / 10000"
    "2075 / 10000 < t0" "t0 < 2085 / 10000"
  shows "display [(1, t1), (4, t4), (0, t0), (2, t2), (3, t3)] =
      [(''D5:'', 76 / 100), (''D2:'', 639 / 1000), (''D3:'', 295 / 1000),
       (''D4:'', 232 / 1000), (''D1:'', 208 / 1000)]"
proof -
  have r: "py_round t4 3 = 76 / 100" "py_round t1 3 = 639 / 1000" "py_round t2 3 = 295 / 1000"
    "py_round t3 3 = 232 / 1000" "py_round t0 3 = 208 / 1000"
    using py_round_3 [of 760 t4] py_round_3 [of 639 t1] py_round_3 [of 295 t2]
      py_round_3 [of 232 t3] py_round_3 [of 208 t0] assms
    by simp_all
  have srt: "sort_key (\<lambda>x. - snd x) [(1 :: nat, t1), (4, t4), (0, t0), (2, t2), (3, t3)] =
      [(4, t4), (1, t1), (2, t2), (3, t3), (0, t0)]"
    by (rule sort_scores) (use assms in linarith)+
  show ?thesis
    unfolding display_def srt by (simp add: r labels [simplified])
qed

lemma td_scores_bounded:
  assumes "scores_of idf td_matrix [''beijing'', ''duck'', ''recipe''] = Inr s"
  shows "\<exists>s0 s1 s2 s3 s4. s = [(1, s1), (4, s4), (0, s0), (2, s2), (3, s3)] \<and>
     7596 / 10000 < s4 \<and> s4 < 7604 / 10000 \<and> 6386 / 10000 < s1 \<and> s1 < 6394 / 10000 \<and>
     2946 / 10000 < s2 \<and> s2 < 2954 / 10000 \<and> 2316 / 10000 < s3 \<and> s3 < 2324 / 10000 \<and>
     2076 / 10000 < s0 \<and> s0 < 2084 / 10000"
proof -
  define x y z :: real where "x = (ln (5 / 2))\<^sup>2" and "y = (ln (5 / 4))\<^sup>2"
    and "z = (ln (5 / 3))\<^sup>2"
  have b: "839587 / 1000000 \<le> x" "x \<le> 839606 / 1000000"
    "49791 / 1000000 \<le> y" "y \<le> 49796 / 1000000"
    "260937 / 1000000 \<le> z" "z \<le> 260948 / 1000000"
    unfolding x_def y_def z_def by (rule idf_square_bounds)+
  obtain g where g: "init_globals idf td_matrix = Inr g"
    using init_globals_eq [of idf idf_val td_matrix] by (auto simp: idf_eq)
  from assms have "s =
     [(1, score_form ((x + 2 * y) / 4) (x + y + z) ((2 * x + 4 * y) / 16)),
      (4, score_form ((x + y + z) / 4) (x + y + z) ((2 * x + y + z) / 16)),
      (0, score_form y (x + y + z) y),
      (2, score_form ((2 * y + z) / 4) (x + y + z) ((x + 4 * y + z) / 16)),
      (3, score_form (z / 2) (x + y + z) ((x + z) / 4))]"
    by (simp add: scores_of_def g td_score_values [OF g] x_def y_def z_def)
  with score_bounds [OF b] show ?thesis by blast
qed

text \<open>
  Claim C1. For the notebook's matrix and the query \<open>beijing duck recipe\<close>,
  \<open>score_tt\<close> followed by the display loop gives the lines D5: 0.76, D2: 0.639,
  D3: 0.295, D4: 0.232, D1: 0.208, in this order (each line as the label and the rounded
  score that \<^verbatim>\<open>print\<close> receives). The scores are computed in exact real arithmetic;
  each lies strictly inside the interval that rounds to the printed value.
\<close>

theorem worked_example:
  "\<exists>s. scores_of idf td_matrix [''beijing'', ''duck'', ''recipe''] = Inr s \<and>
     display s =
       [(''D5:'', 76 / 100), (''D2:'', 639 / 1000), (''D3:'', 295 / 1000),
        (''D4:'', 232 / 1000), (''D1:'', 208 / 1000)]"
proof -
  obtain g where g: "init_globals idf td_matrix = Inr g"
    using init_globals_eq [of idf idf_val td_matrix] by (auto simp: idf_eq)
  obtain s where s: "scores_of idf td_matrix [''beijing'', ''duck'', ''recipe''] = Inr s"
    by (simp add: scores_of_def g td_score_values [OF g])
  from td_scores_bounded [OF s] obtain s0 s1 s2 s3 s4 where
    e: "s = [(1, s1), (4, s4), (0, s0), (2, s2), (3, s3)]"
    and b: "7596 / 10000 < s4" "s4 < 7604 / 10000" "6386 / 10000 < s1" "s1 < 6394 / 10000"
      "2946 / 10000 < s2" "s2 < 2954 / 10000" "2316 / 10000 < s3" "s3 < 2324 / 10000"
      "2076 / 10000 < s0" "s0 < 2084 / 10000"
    by blast
  have "display s =
      [(''D5:'', 76 / 100), (''D2:'', 639 / 1000), (''D3:'', 295 / 1000),
       (''D4:'', 232 / 1000), (''D1:'', 208 / 1000)]"
    unfolding e by (rule display_of_bounds) (use b in linarith)+
  with s show ?thesis by blast
qed

text \<open>
  The printed lines do not depend on the last digits of the scores: every table whose
  scores differ from the exact ones by at most \<open>1 / 10000\<close> is displayed as the same
  five lines. This is the margin that the exact model leaves to the rounding of the
  double arithmetic of the notebook.
\<close>

lemma display_stable:
  assumes s: "scores_of idf td_matrix [''beijing'', ''duck'', ''recipe''] = Inr s"
    and e: "\<And>d. \<bar>e d\<bar> \<le> 1 / 10000"
  shows "display (map (\<lambda>(d, v). (d, v + e d)) s) =
       [(''D5:'', 76 / 100), (''D2:'', 639 / 1000), (''D3:'', 295 / 1000),
        (''D4:'', 232 / 1000), (''D1:'', 208 / 1000)]"
proof -
  from td_scores_bounded [OF s] obtain s0 s1 s2 s3 s4 where
    eq: "s = [(1, s1), (4, s4), (0, s0), (2, s2), (3, s3)]"
    and b: "7596 / 10000 < s4" "s4 < 7604 / 10000" "6386 / 10000 < s1" "s1 < 6394 / 10000"
      "2946 / 10000 < s2" "s2 < 2954 / 10000" "2316 / 10000 < s3" "s3 < 2324 / 10000"
      "2076 / 10000 < s0" "s0 < 2084 / 10000"
    by blast
  have m: "map (\<lambda>(d, v). (d, v + e d)) s =
      [(1, s1 + e 1), (4, s4 + e 4), (0, s0 + e 0), (2, s2 + e 2), (3, s3 + e 3)]"
    by (simp add: eq)
  show ?thesis
    unfolding m
    by (rule display_of_bounds) (use b e [of 0] e [of 1] e [of 2] e [of 3] e [of 4] in linarith)+
qed

subsection \<open>The document norms of the notebook\<close>





end
